theory Spec2Isabelle
  imports Main "HOL-Library.Word" "HOL-Library.Signed_Division" "HOL-Library.Product_Lexorder"
    "HOL-Library.Multiset"
begin

unbundle bit_operations_syntax

section \<open>Machine types and byte buffers\<close>

type_synonym u8 = "8 word"
type_synonym u32 = "32 word"
type_synonym i64 = "64 word"

text \<open>
  A page buffer is a list of bytes. The C code indexes raw memory; a read past the end
  of a buffer is undefined behaviour there. The model reads 0 at such an index and
  drops a store to it, and every theorem that depends on a buffer's contents states
  the length it needs.
\<close>

definition byteAt :: "u8 list \<Rightarrow> nat \<Rightarrow> u8" where
  "byteAt a i = (if i < length a then a ! i else 0)"

text \<open>\<open>memset(&a[i], 0, n)\<close>: the bytes at \<open>i\<close>, ..., \<open>i + n - 1\<close> become zero.\<close>

definition memsetZero :: "u8 list \<Rightarrow> nat \<Rightarrow> nat \<Rightarrow> u8 list" where
  "memsetZero a i n = take i a @ replicate (min n (length a - i)) 0 @ drop (i + n) a"

text \<open>\<open>scrubDefragInt32(&a[off])\<close>: a 32-bit big-endian integer.\<close>

definition scrubDefragInt32 :: "u8 list \<Rightarrow> nat \<Rightarrow> u32" where
  "scrubDefragInt32 a off =
     ucast (byteAt a (off + 3)) + push_bit 8 (ucast (byteAt a (off + 2)))
       + push_bit 16 (ucast (byteAt a (off + 1))) + push_bit 24 (ucast (byteAt a off))"

text \<open>\<open>scrubDefragWriteInt32(&a[off], v)\<close>\<close>

definition scrubDefragWriteInt32 :: "u8 list \<Rightarrow> nat \<Rightarrow> u32 \<Rightarrow> u8 list" where
  "scrubDefragWriteInt32 a off v =
     a[off := ucast (drop_bit 24 v AND 0xff),
       off + 1 := ucast (drop_bit 16 v AND 0xff),
       off + 2 := ucast (drop_bit 8 v AND 0xff),
       off + 3 := ucast (v AND 0xff)]"

text \<open>\<open>scrubDefragInt16(&a[off])\<close>: a 16-bit big-endian integer, returned as u32.\<close>

definition scrubDefragInt16 :: "u8 list \<Rightarrow> nat \<Rightarrow> u32" where
  "scrubDefragInt16 a off = push_bit 8 (ucast (byteAt a off)) + ucast (byteAt a (off + 1))"

section \<open>Varints\<close>

text \<open>
  The loop of \<open>scrubDefragVarint\<close> from index \<open>i\<close> with accumulator \<open>v\<close>; the
  result is the value stored in \<open>*pVal\<close> and the returned byte count.
\<close>

function varintLoop :: "u8 list \<Rightarrow> i64 \<Rightarrow> nat \<Rightarrow> i64 \<times> nat" where
  "varintLoop z v i =
     (if i < 8 then
        (if byteAt z i AND 0x80 = 0
         then (push_bit 7 v + ucast (byteAt z i AND 0x7f), i + 1)
         else varintLoop z (push_bit 7 v + ucast (byteAt z i AND 0x7f)) (i + 1))
      else (push_bit 8 v + ucast (byteAt z i AND 0xff), 9))"
  by pat_completeness auto
termination
  by (relation "measure (\<lambda>(z, v, i). 8 - i)") auto

declare varintLoop.simps [simp del]

definition scrubDefragVarint :: "u8 list \<Rightarrow> i64 \<times> nat" where
  "scrubDefragVarint z = varintLoop z 0 0"

function varintSizeLoop :: "u8 list \<Rightarrow> nat \<Rightarrow> nat" where
  "varintSizeLoop z i =
     (if i < 8 then (if byteAt z i AND 0x80 = 0 then i + 1 else varintSizeLoop z (i + 1))
      else 9)"
  by pat_completeness auto
termination
  by (relation "measure (\<lambda>(z, i). 8 - i)") auto

declare varintSizeLoop.simps [simp del]

definition scrubDefragVarintSize :: "u8 list \<Rightarrow> nat" where
  "scrubDefragVarintSize z = varintSizeLoop z 0"

section \<open>The state of a run\<close>

text \<open>
  The messages of \<open>scrubDefragErr\<close>, one constructor for each format string of the
  page-level code, with the arguments of the format.
\<close>

datatype errmsg =
    MsgReadFailed u32
  | MsgWriteFailed u32
  | MsgInternalLogic
  | MsgTooDeep u32
  | MsgCorruptPage u32 nat

text \<open>
  Modelled from the spec: \<open>sqlite3.h\<close> is not among the sources; these are the result
  codes of the SQLite C interface behind the spec's error kinds (generic error,
  OutOfMemory, IOError, Corrupt).
\<close>

definition SQLITE_ERROR :: int where "SQLITE_ERROR = 1"
definition SQLITE_NOMEM :: int where "SQLITE_NOMEM = 7"
definition SQLITE_IOERR :: int where "SQLITE_IOERR = 10"
definition SQLITE_CORRUPT :: int where "SQLITE_CORRUPT = 11"

text \<open>
  \<open>struct ScrubDefragState\<close>. The two file handles are modelled by what the code does
  with them: \<open>srcFile\<close> holds the pages of the source by page number (a page that is
  missing cannot be read), \<open>destFile\<close> is the sequence of pages handed to \<open>xWrite\<close>,
  oldest first, and \<open>destFails\<close> lists the page numbers for which \<open>xWrite\<close> fails.
  \<open>mallocFails\<close> lists the calls of \<open>sqlite3_malloc\<close>, counted by \<open>nMalloc\<close>, that
  return NULL.
\<close>

record ScrubDefragState =
  rcErr :: int
  zErr :: "errmsg option"
  szPage :: u32
  szUsable :: u32
  nDestPage :: u32
  nSrcPage :: u32
  nFreePage :: u32
  page1 :: "u8 list"
  iDestPageNo :: u32
  iLock :: u32
  srcFile :: "(u32 \<times> u8 list) list"
  destFile :: "(u32 \<times> u8 list) list"
  destFails :: "u32 list"
  mallocFails :: "nat list"
  nMalloc :: nat

definition scrubDefragIncDestPageNo :: "ScrubDefragState \<Rightarrow> ScrubDefragState" where
  "scrubDefragIncDestPageNo p =
     (let q = p\<lparr>iDestPageNo := iDestPageNo p + 1\<rparr>
      in if iDestPageNo q = iLock q then q\<lparr>iDestPageNo := iDestPageNo q + 1\<rparr> else q)"

definition scrubDefragErr :: "ScrubDefragState \<Rightarrow> errmsg \<Rightarrow> ScrubDefragState" where
  "scrubDefragErr p m =
     (let q = p\<lparr>zErr := Some m\<rparr>
      in if rcErr q = 0 then q\<lparr>rcErr := SQLITE_ERROR\<rparr> else q)"

text \<open>\<open>s.iLock = (1073742335/s.szPage)+1\<close>, in unsigned 32-bit arithmetic.\<close>

definition lockPage :: "u32 \<Rightarrow> u32" where
  "lockPage sz = 1073742335 div sz + 1"

text \<open>
  The page numbers the allocator holds after \<open>n\<close> advances: \<open>allocSeq p 0\<close> is the
  number in use when the run starts.
\<close>

definition allocSeq :: "ScrubDefragState \<Rightarrow> nat \<Rightarrow> u32" where
  "allocSeq p n = iDestPageNo ((scrubDefragIncDestPageNo ^^ n) p)"

section \<open>The header fix of page 1\<close>

text \<open>Lines 517 to 527 of \<open>sqlite3_scrub_and_defrag\<close>.\<close>

definition headerFix :: "ScrubDefragState \<Rightarrow> ScrubDefragState" where
  "headerFix s =
     (let s1 = s\<lparr>nDestPage := nSrcPage s - nFreePage s\<rparr>;
          s2 = (if nSrcPage s1 \<ge> iLock s1 \<and> nDestPage s1 < iLock s1
                then s1\<lparr>nDestPage := nDestPage s1 - 1\<rparr> else s1);
          s3 = s2\<lparr>page1 := scrubDefragWriteInt32 (page1 s2) 28 (nDestPage s2)\<rparr>;
          s4 = s3\<lparr>page1 := scrubDefragWriteInt32 (page1 s3) 32 0\<rparr>;
          s5 = s4\<lparr>page1 := scrubDefragWriteInt32 (page1 s4) 36 0\<rparr>
      in s5\<lparr>page1 := scrubDefragWriteInt32 (page1 s5) 52 0\<rparr>)"

text \<open>
  The page count as the specification words it. A source that reaches the lock page
  counts it among its pages, so it holds one page less than its count: the dense
  destination receives \<open>nSrc - nFree - 1\<close> pages, and it stays below the lock page when
  that number is smaller than the number of the lock page. In that case, and in no
  other, the count is the difference reduced by one.
\<close>

definition specDestPageCount :: "int \<Rightarrow> int \<Rightarrow> int \<Rightarrow> int" where
  "specDestPageCount nSrc nFree lock =
     nSrc - nFree - (if lock \<le> nSrc \<and> nSrc - nFree - 1 < lock then 1 else 0)"

section \<open>Page I/O\<close>

text \<open>
  \<open>scrubDefragAllocPage\<close>: the state after the call and whether a page was obtained.
\<close>

definition scrubDefragAllocPage :: "ScrubDefragState \<Rightarrow> ScrubDefragState \<times> bool" where
  "scrubDefragAllocPage p =
     (if rcErr p \<noteq> 0 then (p, False)
      else if nMalloc p \<in> set (mallocFails p)
      then (p\<lparr>rcErr := SQLITE_NOMEM, nMalloc := Suc (nMalloc p)\<rparr>, False)
      else (p\<lparr>nMalloc := Suc (nMalloc p)\<rparr>, True))"

text \<open>
  \<open>xRead\<close> of \<open>szPage\<close> bytes at the offset of page \<open>pgno\<close>: it succeeds only when
  the source delivers a full page.
\<close>

definition xRead :: "ScrubDefragState \<Rightarrow> u32 \<Rightarrow> u8 list option" where
  "xRead p pgno =
     (case map_of (srcFile p) pgno of
        None \<Rightarrow> None
      | Some pg \<Rightarrow> if length pg = unat (szPage p) then Some pg else None)"

text \<open>
  \<open>scrubDefragRead(p, pgno, pBuf)\<close>; \<open>hasBuf\<close> says that \<open>pBuf\<close> is not NULL. The
  result is the page read, or \<open>None\<close> for the NULL return.
\<close>

definition scrubDefragRead ::
  "ScrubDefragState \<Rightarrow> u32 \<Rightarrow> bool \<Rightarrow> ScrubDefragState \<times> u8 list option" where
  "scrubDefragRead p pgno hasBuf =
     (if rcErr p \<noteq> 0 then (p, None)
      else case (if hasBuf then (p, True) else scrubDefragAllocPage p) of
             (p1, False) \<Rightarrow> (p1, None)
           | (p1, True) \<Rightarrow>
               (case xRead p1 pgno of
                  Some pg \<Rightarrow> (p1, Some pg)
                | None \<Rightarrow>
                    ((scrubDefragErr p1 (MsgReadFailed pgno))\<lparr>rcErr := SQLITE_IOERR\<rparr>, None)))"

definition scrubDefragWrite :: "ScrubDefragState \<Rightarrow> u32 \<Rightarrow> u8 list \<Rightarrow> ScrubDefragState" where
  "scrubDefragWrite p pgno pData =
     (if rcErr p \<noteq> 0 then p
      else if pgno > nDestPage p
      then (scrubDefragErr p MsgInternalLogic)\<lparr>rcErr := SQLITE_CORRUPT\<rparr>
      else if pgno \<in> set (destFails p)
      then (scrubDefragErr p (MsgWriteFailed pgno))\<lparr>rcErr := SQLITE_IOERR\<rparr>
      else p\<lparr>destFile := destFile p @ [(pgno, pData)]\<rparr>)"

section \<open>The overflow copier\<close>

text \<open>
  One pass of the loop body of \<open>scrubDefragOverflow\<close> after the page \<open>a\<close> has been
  read: the state after the write, the next source page number and the bytes that remain.
\<close>

definition overflowTail :: "u32 \<Rightarrow> u8 list \<Rightarrow> u32 \<Rightarrow> u8 list \<times> u32" where
  "overflowTail U a nByte =
     (if nByte \<ge> U - 4 then (a, nByte - (U - 4))
      else (memsetZero a (unat (U - ((U - 4) - nByte))) (unat ((U - 4) - nByte)), 0))"

definition overflowLink :: "ScrubDefragState \<Rightarrow> u8 list \<Rightarrow> ScrubDefragState \<times> u8 list" where
  "overflowLink p a =
     (if scrubDefragInt32 a 0 \<noteq> 0
      then (scrubDefragIncDestPageNo p,
            scrubDefragWriteInt32 a 0 (iDestPageNo (scrubDefragIncDestPageNo p)))
      else (p, a))"

definition overflowPage ::
  "ScrubDefragState \<Rightarrow> u8 list \<Rightarrow> u32 \<Rightarrow> ScrubDefragState \<times> u32 \<times> u32" where
  "overflowPage p a nByte =
     (case overflowTail (szUsable p) a nByte of
        (a1, nByte1) \<Rightarrow>
          (case overflowLink p a1 of
             (p2, a2) \<Rightarrow> (scrubDefragWrite p2 (iDestPageNo p) a2, scrubDefragInt32 a1 0, nByte1)))"

text \<open>
  The \<open>while\<close> loop. A source chain that runs in a cycle, with \<open>szUsable = 4\<close>, keeps
  the loop going for ever; \<open>None\<close> is the loop that does not return.
\<close>

partial_function (option) overflowLoop ::
  "ScrubDefragState \<Rightarrow> u32 \<Rightarrow> u32 \<Rightarrow> ScrubDefragState option" where
  "overflowLoop p pgno nByte =
     (if nByte > 0 \<and> pgno \<noteq> 0 then
        (case scrubDefragRead p pgno True of
           (p1, None) \<Rightarrow> Some p1
         | (p1, Some a) \<Rightarrow>
             (case overflowPage p1 a nByte of
                (p2, pgno1, nByte1) \<Rightarrow> overflowLoop p2 pgno1 nByte1))
      else Some p)"

declare overflowLoop.simps [code]

definition scrubDefragOverflow ::
  "ScrubDefragState \<Rightarrow> u32 \<Rightarrow> u32 \<Rightarrow> ScrubDefragState option" where
  "scrubDefragOverflow p pgno nByte =
     (case scrubDefragAllocPage p of
        (p1, False) \<Rightarrow> Some p1
      | (p1, True) \<Rightarrow> overflowLoop p1 pgno nByte)"

section \<open>The B-tree page rewriter\<close>

text \<open>\<open>nPrefix = pgno==1 ? 100 : 0\<close>\<close>

definition btreePrefix :: "u32 \<Rightarrow> nat" where
  "btreePrefix pgno = (if pgno = 1 then 100 else 0)"

text \<open>\<open>aTop[0]==0x05 || aTop[0]==0x02\<close>, with \<open>aTop = &a[nPrefix]\<close>\<close>

definition isInterior :: "u8 list \<Rightarrow> nat \<Rightarrow> bool" where
  "isInterior a nPrefix \<longleftrightarrow> byteAt a nPrefix = 0x05 \<or> byteAt a nPrefix = 0x02"

text \<open>\<open>szHdr = 8 + 4*(aTop[0]==0x02 || aTop[0]==0x05)\<close>\<close>

definition btreeHdrSize :: "u8 list \<Rightarrow> nat \<Rightarrow> u32" where
  "btreeHdrSize a nPrefix =
     8 + 4 * (if byteAt a nPrefix = 0x02 \<or> byteAt a nPrefix = 0x05 then 1 else 0)"

text \<open>\<open>nCell = scrubDefragInt16(&aTop[3])\<close>\<close>

definition btreeCellCount :: "u8 list \<Rightarrow> nat \<Rightarrow> u32" where
  "btreeCellCount a nPrefix = scrubDefragInt16 a (nPrefix + 3)"

text \<open>
  Lines 405 to 409: the gap between the cell index and the cell content area. The
  result is the line number of the failed check, or the buffer after the \<open>memset\<close>.
\<close>

definition btreeZeroGap :: "u32 \<Rightarrow> nat \<Rightarrow> u8 list \<Rightarrow> nat + u8 list" where
  "btreeZeroGap U nPrefix a =
     (let x = scrubDefragInt16 a (nPrefix + 5);
          y = btreeHdrSize a nPrefix + of_nat nPrefix + btreeCellCount a nPrefix * 2
      in if x > U then Inl 406
         else if y > x then Inl 408
         else Inr (if y < x then memsetZero a (unat y) (unat (x - y)) else a))"

text \<open>
  Lines 416 to 418 for the free block at \<open>pc\<close>: \<open>n\<close> is the size field of the block,
  and the bytes after its four-byte header are zeroed.
\<close>

definition freeBlockZero :: "u8 list \<Rightarrow> u32 \<Rightarrow> u8 list" where
  "freeBlockZero a pc =
     (let n = scrubDefragInt16 a (unat pc + 2)
      in if n > 4 then memsetZero a (unat pc + 4) (unat (n - 4)) else a)"

text \<open>
  Lines 414 to 422: the walk over the free blocks, from the block at \<open>pc\<close>. The result
  is the buffer as the walk leaves it and the line of the failed check, if one failed.
\<close>

function freeBlockLoop :: "u32 \<Rightarrow> u8 list \<Rightarrow> u32 \<Rightarrow> u8 list \<times> nat option" where
  "freeBlockLoop U a pc =
     (if pc \<noteq> 0 then
        (if pc > U - 4 then (a, Some 415)
         else if pc + scrubDefragInt16 a (unat pc + 2) > U then (a, Some 417)
         else if scrubDefragInt16 (freeBlockZero a pc) (unat pc) < pc + 4
                 \<and> scrubDefragInt16 (freeBlockZero a pc) (unat pc) > 0
         then (freeBlockZero a pc, Some 420)
         else freeBlockLoop U (freeBlockZero a pc)
                (scrubDefragInt16 (freeBlockZero a pc) (unat pc)))
      else (a, None))"
  by pat_completeness auto
termination
proof (relation "measure (\<lambda>(U, a, pc). if pc = 0 then 0
                                      else if unat pc \<le> 65535 then 65536 - unat pc else 65537)")
  show "wf (measure (\<lambda>(U, a, pc). if pc = 0 then 0
                                 else if unat pc \<le> 65535 then 65536 - unat pc else 65537))"
    by simp
next
  fix U :: u32 and a :: "u8 list" and pc :: u32
  define x where "x = scrubDefragInt16 (freeBlockZero a pc) (unat pc)"
  assume pc: "pc \<noteq> 0"
    and chk: "\<not> (scrubDefragInt16 (freeBlockZero a pc) (unat pc) < pc + 4
               \<and> 0 < scrubDefragInt16 (freeBlockZero a pc) (unat pc))"
  have hi: "unat (byteAt (freeBlockZero a pc) (unat pc)) < 256"
    using unsigned_less [of "byteAt (freeBlockZero a pc) (unat pc)", where 'a = nat] by simp
  have lo: "unat (byteAt (freeBlockZero a pc) (unat pc + 1)) < 256"
    using unsigned_less [of "byteAt (freeBlockZero a pc) (unat pc + 1)", where 'a = nat] by simp
  have "unat x = unat (byteAt (freeBlockZero a pc) (unat pc)) * 256
                   + unat (byteAt (freeBlockZero a pc) (unat pc + 1))"
    unfolding x_def scrubDefragInt16_def push_bit_eq_mult using hi lo
    by (simp add: unat_word_ariths unsigned_ucast_eq take_bit_nat_eq_self)
  then have xle: "unat x \<le> 65535" using hi lo by simp
  have pos: "0 < unat pc" using pc by (simp add: unat_gt_0)
  have step: "x \<noteq> 0 \<Longrightarrow> unat pc \<le> 65535 \<Longrightarrow> unat pc < unat x"
  proof -
    assume nz: "x \<noteq> 0" and small: "unat pc \<le> 65535"
    have "unat (pc + 4) = unat pc + 4" using small by (simp add: unat_word_ariths)
    moreover have "pc + 4 \<le> x" using chk nz by (auto simp: x_def word_neq_0_conv not_less)
    ultimately show ?thesis by (simp add: word_le_nat_alt)
  qed
  show "((U, freeBlockZero a pc, scrubDefragInt16 (freeBlockZero a pc) (unat pc)), U, a, pc)
        \<in> measure (\<lambda>(U, a, pc). if pc = 0 then 0
                                 else if unat pc \<le> 65535 then 65536 - unat pc else 65537)"
    using xle pos step pc unfolding x_def [symmetric] by (auto simp: unat_eq_zero)
qed

declare freeBlockLoop.simps [simp del]

text \<open>
  Lines 405 to 422 on the buffer \<open>a\<close> of a page: the buffer as these lines leave it, and
  the line of the check that sent the code to \<open>btree_corrupt\<close>, if one did.
\<close>

definition btreeHeader :: "u32 \<Rightarrow> nat \<Rightarrow> u8 list \<Rightarrow> u8 list \<times> nat option" where
  "btreeHeader U nPrefix a =
     (case btreeZeroGap U nPrefix a of
        Inl ln \<Rightarrow> (a, Some ln)
      | Inr a1 \<Rightarrow>
          if scrubDefragInt16 a1 (nPrefix + 1) > 0
             \<and> scrubDefragInt16 a1 (nPrefix + 1) < scrubDefragInt16 a (nPrefix + 5)
          then (a1, Some 413)
          else freeBlockLoop U a1 (scrubDefragInt16 a1 (nPrefix + 1)))"

subsection \<open>Cells\<close>

text \<open>
  The overflow thresholds of lines 443 to 458. \<open>P\<close> is a signed 64-bit integer and the
  other operands are unsigned 32-bit integers, which C converts to 64 bits before it
  compares, subtracts and takes the remainder; the remainder has the sign of the
  dividend (\<open>smod\<close>). The assignment to the 32-bit \<open>K\<close> keeps the low 32 bits.
\<close>

definition cellX :: "u8 \<Rightarrow> u32 \<Rightarrow> u32" where
  "cellX kind U = (if kind = 0x0d then U - 35 else ((U - 12) * 64 div 255) - 23)"

definition cellM :: "u32 \<Rightarrow> u32" where
  "cellM U = ((U - 12) * 32 div 255) - 23"

definition cellK :: "u32 \<Rightarrow> i64 \<Rightarrow> u32" where
  "cellK U P = word_of_int (uint (cellM U) + (sint P - uint (cellM U)) smod uint (U - 4))"

definition cellNLocal :: "u8 \<Rightarrow> u32 \<Rightarrow> i64 \<Rightarrow> u32" where
  "cellNLocal kind U P = (if cellK U P \<le> cellX kind U then cellK U P else cellM U)"

text \<open>
  What lines 441 to 464 decide for the cell whose payload-size varint starts at \<open>pc0\<close>:
  a failed check, a payload that is all local, or an overflow chain to copy, given by
  the buffer offset of its head pointer, the head page number read there and the byte
  count handed to \<open>scrubDefragOverflow\<close> (\<open>P-nLocal\<close> converted to \<open>u32\<close>).
\<close>

datatype cellResult = CellCorrupt nat | CellLocal | CellOverflow nat u32 u32

definition cellPayload :: "u32 \<Rightarrow> u8 \<Rightarrow> u8 list \<Rightarrow> u32 \<Rightarrow> cellResult" where
  "cellPayload U kind a pc0 =
     (let P = fst (scrubDefragVarint (drop (unat pc0) a));
          pc = pc0 + of_nat (snd (scrubDefragVarint (drop (unat pc0) a)))
      in if pc \<ge> U then CellCorrupt 442
         else if sint P \<le> uint (cellX kind U) then CellLocal
         else let pc1 = (if kind = 0x0d
                         then pc + of_nat (scrubDefragVarintSize (drop (unat pc) a)) else pc)
              in if kind = 0x0d \<and> pc1 > U - 4 then CellCorrupt 456
                 else if pc1 + cellNLocal kind U P > U - 4 then CellCorrupt 459
                 else CellOverflow (unat (pc1 + cellNLocal kind U P))
                        (scrubDefragInt32 a (unat (pc1 + cellNLocal kind U P)))
                        (word_of_int (sint P - uint (cellNLocal kind U P))))"

text \<open>
  Lines 428 to 433 for cell \<open>i\<close>: a failed check, the offset of a leaf cell, or the
  child page number and the offset of an interior cell.
\<close>

datatype cellEntry = EntryCorrupt nat | EntryLeaf u32 | EntryInterior u32 u32

definition cellEnter :: "u32 \<Rightarrow> nat \<Rightarrow> u32 \<Rightarrow> u8 list \<Rightarrow> nat \<Rightarrow> cellEntry" where
  "cellEnter U nPrefix szHdr a i =
     (let pc = scrubDefragInt16 a (nPrefix + unat szHdr + i * 2)
      in if pc \<le> szHdr then EntryCorrupt 429
         else if pc > U - 3 then EntryCorrupt 430
         else if isInterior a nPrefix
         then (if pc + 4 > U then EntryCorrupt 432
               else EntryInterior (scrubDefragInt32 a (unat pc)) pc)
         else EntryLeaf pc)"

text \<open>
  The buffer \<open>a\<close> of a call of \<open>scrubDefragBtree\<close> is \<open>p->page1\<close> itself when
  \<open>pgno\<close> is 1, so that a nested call for page 1 works on the same bytes, and a page
  of its own otherwise. A call is modelled with the state and its own buffer;
  \<open>curBuf\<close> reads the buffer the C pointer \<open>a\<close> refers to and \<open>setBuf\<close> stores to it.
\<close>

definition curBuf :: "u32 \<Rightarrow> ScrubDefragState \<Rightarrow> u8 list \<Rightarrow> u8 list" where
  "curBuf pgno p a = (if pgno = 1 then page1 p else a)"

definition setBuf ::
  "u32 \<Rightarrow> ScrubDefragState \<Rightarrow> u8 list \<Rightarrow> u8 list \<Rightarrow> ScrubDefragState \<times> u8 list" where
  "setBuf pgno p a b = (if pgno = 1 then (p\<lparr>page1 := b\<rparr>, a) else (p, b))"

text \<open>
  \<open>scrubDefragIncDestPageNo(p); scrubDefragWriteInt32(&a[off], p->iDestPageNo);\<close>
\<close>

definition btreeStorePtr ::
  "ScrubDefragState \<Rightarrow> u8 list \<Rightarrow> u32 \<Rightarrow> nat \<Rightarrow> ScrubDefragState \<times> u8 list" where
  "btreeStorePtr p a pgno off =
     setBuf pgno (scrubDefragIncDestPageNo p) a
       (scrubDefragWriteInt32 (curBuf pgno p a) off
          (iDestPageNo (scrubDefragIncDestPageNo p)))"

text \<open>
  Lines 441 to 464 with their effects: the state, the buffer and the line of a failed
  check. \<open>None\<close> is an overflow copy that does not return.
\<close>

definition cellFinish ::
  "ScrubDefragState \<Rightarrow> u8 list \<Rightarrow> u32 \<Rightarrow> u32
     \<Rightarrow> (ScrubDefragState \<times> u8 list \<times> nat option) option" where
  "cellFinish p a pgno pc =
     (case cellPayload (szUsable p) (byteAt (curBuf pgno p a) (btreePrefix pgno))
             (curBuf pgno p a) pc of
        CellCorrupt ln \<Rightarrow> Some (p, a, Some ln)
      | CellLocal \<Rightarrow> Some (p, a, None)
      | CellOverflow off iChild nByte \<Rightarrow>
          (case btreeStorePtr p a pgno off of
             (p2, a2) \<Rightarrow>
               (case scrubDefragOverflow p2 iChild nByte of
                  None \<Rightarrow> None
                | Some p3 \<Rightarrow> Some (p3, a2, None))))"

text \<open>The \<open>btree_corrupt\<close> exit and lines 474 to 479.\<close>

definition btreeCorrupt :: "ScrubDefragState \<Rightarrow> u32 \<Rightarrow> nat \<Rightarrow> ScrubDefragState" where
  "btreeCorrupt p pgno ln = scrubDefragErr p (MsgCorruptPage pgno ln)"

definition btreeFinish ::
  "ScrubDefragState \<Rightarrow> u8 list \<Rightarrow> u32 \<Rightarrow> bool \<Rightarrow> u32 \<Rightarrow> ScrubDefragState" where
  "btreeFinish p a pgno bRoot iCurrentPageNo =
     (let q = (if bRoot then scrubDefragIncDestPageNo p else p)
      in scrubDefragWrite q iCurrentPageNo (curBuf pgno q a))"

text \<open>Lines 391 to 396: the buffer of the call, \<open>None\<close> when the read returned NULL.\<close>

definition btreeLoad :: "ScrubDefragState \<Rightarrow> u32 \<Rightarrow> ScrubDefragState \<times> u8 list option" where
  "btreeLoad p pgno = (if pgno = 1 then (p, Some []) else scrubDefragRead p pgno False)"

text \<open>
  \<open>scrubDefragBtree\<close> and its loop over the cells, from cell \<open>i\<close>. The loop returns the
  state, the buffer of the call and the line of a failed check; \<open>szHdr\<close> and \<open>nCell\<close>
  are the values the call computed before the loop. The two \<open>assert(iChild)\<close> are
  taken as in a build with \<open>NDEBUG\<close>, where they do nothing. \<open>None\<close> is a call that
  does not return, because an overflow copy in it does not.
\<close>

function scrubDefragBtree ::
    "ScrubDefragState \<Rightarrow> u32 \<Rightarrow> nat \<Rightarrow> bool \<Rightarrow> ScrubDefragState option"
  and btreeCells ::
    "ScrubDefragState \<Rightarrow> u8 list \<Rightarrow> u32 \<Rightarrow> nat \<Rightarrow> u32 \<Rightarrow> nat \<Rightarrow> nat
       \<Rightarrow> (ScrubDefragState \<times> u8 list \<times> nat option) option"
where
  "scrubDefragBtree p pgno iDepth bRoot =
     (if rcErr p \<noteq> 0 then Some p
      else if iDepth > 50 then Some (scrubDefragErr p (MsgTooDeep pgno))
      else (case btreeLoad p pgno of
              (p1, None) \<Rightarrow> Some p1
            | (p1, Some a) \<Rightarrow>
                (case btreeHeader (szUsable p1) (btreePrefix pgno) (curBuf pgno p1 a) of
                   (b, Some ln) \<Rightarrow> Some (btreeCorrupt (fst (setBuf pgno p1 a b)) pgno ln)
                 | (b, None) \<Rightarrow>
                     (case btreeCells (fst (setBuf pgno p1 a b)) (snd (setBuf pgno p1 a b))
                             pgno iDepth
                             (btreeHdrSize (curBuf pgno p1 a) (btreePrefix pgno))
                             (unat (btreeCellCount (curBuf pgno p1 a) (btreePrefix pgno))) 0 of
                        None \<Rightarrow> None
                      | Some (p3, a3, Some ln) \<Rightarrow> Some (btreeCorrupt p3 pgno ln)
                      | Some (p3, a3, None) \<Rightarrow>
                          if isInterior (curBuf pgno p3 a3) (btreePrefix pgno)
                          then (case scrubDefragBtree
                                       (fst (btreeStorePtr p3 a3 pgno (btreePrefix pgno + 8)))
                                       (scrubDefragInt32 (curBuf pgno p3 a3) (btreePrefix pgno + 8))
                                       (iDepth + 1) False of
                                  None \<Rightarrow> None
                                | Some p5 \<Rightarrow>
                                    Some (btreeFinish p5
                                           (snd (btreeStorePtr p3 a3 pgno (btreePrefix pgno + 8)))
                                           pgno bRoot (iDestPageNo p)))
                          else Some (btreeFinish p3 a3 pgno bRoot (iDestPageNo p))))))"
| "btreeCells p a pgno iDepth szHdr nCell i =
     (if i < nCell then
        (case cellEnter (szUsable p) (btreePrefix pgno) szHdr (curBuf pgno p a) i of
           EntryCorrupt ln \<Rightarrow> Some (p, a, Some ln)
         | EntryLeaf pc \<Rightarrow>
             (case cellFinish p a pgno pc of
                None \<Rightarrow> None
              | Some (p4, a4, Some ln) \<Rightarrow> Some (p4, a4, Some ln)
              | Some (p4, a4, None) \<Rightarrow> btreeCells p4 a4 pgno iDepth szHdr nCell (i + 1))
         | EntryInterior iChild pc \<Rightarrow>
             (case scrubDefragBtree (fst (btreeStorePtr p a pgno (unat pc))) iChild
                     (iDepth + 1) False of
                None \<Rightarrow> None
              | Some p3 \<Rightarrow>
                  if byteAt (curBuf pgno p3 (snd (btreeStorePtr p a pgno (unat pc))))
                       (btreePrefix pgno) = 0x05
                  then btreeCells p3 (snd (btreeStorePtr p a pgno (unat pc)))
                         pgno iDepth szHdr nCell (i + 1)
                  else (case cellFinish p3 (snd (btreeStorePtr p a pgno (unat pc))) pgno (pc + 4) of
                          None \<Rightarrow> None
                        | Some (p4, a4, Some ln) \<Rightarrow> Some (p4, a4, Some ln)
                        | Some (p4, a4, None) \<Rightarrow>
                            btreeCells p4 a4 pgno iDepth szHdr nCell (i + 1))))
      else Some (p, a, None))"
  by pat_completeness auto
termination
  by (relation "measures
        [\<lambda>x. case x of
                Inl (p, pgno, iDepth, bRoot) \<Rightarrow> (if iDepth > 50 then 0 else 2 * (51 - iDepth) + 2)
              | Inr (p, a, pgno, iDepth, szHdr, nCell, i) \<Rightarrow> 2 * (51 - iDepth) + 1,
         \<lambda>x. case x of
                Inl (p, pgno, iDepth, bRoot) \<Rightarrow> 0
              | Inr (p, a, pgno, iDepth, szHdr, nCell, i) \<Rightarrow> nCell - i]")
     auto

declare scrubDefragBtree.simps [simp del] btreeCells.simps [simp del]

section \<open>The relocator loop\<close>

text \<open>
  A row that \<open>sqlite3_step\<close> delivers: the columns \<open>rootpage\<close>, \<open>name\<close> and \<open>type\<close>.
  An entry of the catalog-update script is the new root page number with the row it
  belongs to.
\<close>

record catalogRow =
  rootpage :: int
  name :: string
  type :: string

text \<open>
  Lines 539 to 549: for each row the script receives \<open>s.iDestPageNo\<close> as it is before
  the call, and the tree is rewritten with \<open>bRoot = 1\<close>. \<open>(u32)sqlite3_column_int\<close>
  is the conversion of the 32-bit column value.
\<close>

fun relocLoop ::
  "ScrubDefragState \<Rightarrow> (u32 \<times> catalogRow) list \<Rightarrow> catalogRow list
     \<Rightarrow> (ScrubDefragState \<times> (u32 \<times> catalogRow) list) option" where
  "relocLoop s zSql [] = Some (s, zSql)"
| "relocLoop s zSql (r # rs) =
     (case scrubDefragBtree s (word_of_int (rootpage r)) 0 True of
        None \<Rightarrow> None
      | Some s' \<Rightarrow> relocLoop s' (zSql @ [(iDestPageNo s, r)]) rs)"

section \<open>The catalog query\<close>

text \<open>
  The query of lines 533 to 537, on the rows of \<open>sqlite_master\<close>. A row has the columns
  \<open>rootpage\<close> (which can be NULL), \<open>name\<close> and \<open>type\<close>. The \<open>WHERE\<close> clause keeps
  the rows with \<open>coalesce(rootpage,0)>0\<close>, and \<open>ORDER BY\<close> sorts them by the value of
  the \<open>CASE\<close> expression, then by \<open>rootpage\<close>. SQL leaves the order of rows with
  equal keys open; the model keeps them in table order.
\<close>

record masterRow =
  mRootpage :: "int option"
  mName :: string
  mType :: string

definition coalesce0 :: "int option \<Rightarrow> int" where
  "coalesce0 v = (case v of None \<Rightarrow> 0 | Some n \<Rightarrow> n)"

text \<open>\<open>CASE type WHEN 'table' THEN 2 WHEN 'index' THEN 1 ELSE 0 END\<close>\<close>

definition typeRank :: "string \<Rightarrow> nat" where
  "typeRank t = (if t = ''table'' then 2 else if t = ''index'' then 1 else 0)"

definition toCatalogRow :: "masterRow \<Rightarrow> catalogRow" where
  "toCatalogRow r = \<lparr>rootpage = coalesce0 (mRootpage r), name = mName r, type = mType r\<rparr>"

definition rootQuery :: "masterRow list \<Rightarrow> catalogRow list" where
  "rootQuery rows =
     map toCatalogRow
       (sort_key (\<lambda>r. (typeRank (mType r), coalesce0 (mRootpage r)))
          (filter (\<lambda>r. coalesce0 (mRootpage r) > 0) rows))"

section \<open>States of one run\<close>

text \<open>
  \<open>laterState p q\<close>: \<open>q\<close> can follow \<open>p\<close> in a run. The destination has only grown,
  an error code that \<open>p\<close> holds is still there and nothing was written after it,
  and the sizes, the lock page and the two files' behaviour are the same.
\<close>

definition laterState :: "ScrubDefragState \<Rightarrow> ScrubDefragState \<Rightarrow> bool" where
  "laterState p q \<longleftrightarrow>
     (\<exists>ws. destFile q = destFile p @ ws)
     \<and> (rcErr p \<noteq> 0 \<longrightarrow> rcErr q = rcErr p \<and> destFile q = destFile p)
     \<and> szUsable q = szUsable p \<and> szPage q = szPage p \<and> nDestPage q = nDestPage p
     \<and> iLock q = iLock p \<and> srcFile q = srcFile p \<and> destFails q = destFails p"

text \<open>
  \<open>srcChain src pgno n\<close>: the number of the source page that the copier reads in its
  round \<open>n\<close> (from 0) for a chain with head \<open>pgno\<close>: each round goes on to the page
  named by the next-page field of the page it has read (line 348).
\<close>

fun srcChain :: "(u32 \<times> u8 list) list \<Rightarrow> u32 \<Rightarrow> nat \<Rightarrow> u32" where
  "srcChain src pgno 0 = pgno"
| "srcChain src pgno (Suc n) =
     srcChain src (case map_of src pgno of None \<Rightarrow> 0 | Some a \<Rightarrow> scrubDefragInt32 a 0) n"

text \<open>
  \<open>lastPageOk p pgno nByte q\<close>: between \<open>p\<close> and \<open>q\<close> a chain of \<open>nByte\<close> bytes with
  head \<open>pgno\<close> was copied. The pages \<open>pre\<close> and then the last page \<open>d\<close> were written, at
  consecutive numbers of the allocator sequence that starts in \<open>p\<close>. The page \<open>d\<close> is a
  copy of \<open>src\<close>, the source page read in the same round: from offset 4 on it has the
  bytes of \<open>src\<close>, but zeros from the end of the payload that remained for it to the end
  of the usable area. Its next-page field is zero if that of \<open>src\<close> is zero, and the page
  number allocated last otherwise, which is the number that follows its own in the
  allocator sequence.
\<close>

definition lastPageOk ::
  "ScrubDefragState \<Rightarrow> u32 \<Rightarrow> u32 \<Rightarrow> ScrubDefragState \<Rightarrow> bool" where
  "lastPageOk p pgno nByte q \<longleftrightarrow>
     (\<exists>pre pg d src.
        destFile q = destFile p @ pre @ [(pg, d)]
        \<and> map fst pre = map (allocSeq p) [0 ..< length pre]
        \<and> pg = allocSeq p (length pre)
        \<and> map_of (srcFile p) (srcChain (srcFile p) pgno (length pre)) = Some src
        \<and> length src = unat (szPage p) \<and> length d = unat (szPage p)
        \<and> (\<forall>k. 4 + (unat nByte - length pre * (unat (szUsable p) - 4)) \<le> k
                 \<and> k < unat (szUsable p) \<longrightarrow> d ! k = 0)
        \<and> (\<forall>k. 4 \<le> k \<and> k < length d
                 \<and> \<not> (4 + (unat nByte - length pre * (unat (szUsable p) - 4)) \<le> k
                        \<and> k < unat (szUsable p)) \<longrightarrow> d ! k = src ! k)
        \<and> scrubDefragInt32 d 0
            = (if scrubDefragInt32 src 0 = 0 then 0 else iDestPageNo q)
        \<and> iDestPageNo q
            = allocSeq p (length pre + (if scrubDefragInt32 src 0 = 0 then 0 else 1)))"

text \<open>
  \<open>allocRun r p q k n\<close>: from \<open>p\<close> to \<open>q\<close> the allocator advanced \<open>k\<close> times and \<open>n\<close>
  pages were written, each at a number that the allocator sequence from \<open>p\<close> reaches
  after at most \<open>k - r\<close> advances.
\<close>

definition allocRun ::
  "nat \<Rightarrow> ScrubDefragState \<Rightarrow> ScrubDefragState \<Rightarrow> nat \<Rightarrow> nat \<Rightarrow> bool" where
  "allocRun r p q k n \<longleftrightarrow>
     iLock q = iLock p \<and> iDestPageNo q = allocSeq p k
     \<and> (\<exists>ws. destFile q = destFile p @ ws \<and> length ws = n
             \<and> (\<forall>w \<in> set ws. \<exists>j. j + r \<le> k \<and> fst w = allocSeq p j))"

text \<open>
  \<open>goodRun r c p q\<close>: an \<open>allocRun\<close> whose number of advances is at most \<open>c\<close> plus the
  usable size for each page written.
\<close>

definition goodRun ::
  "nat \<Rightarrow> nat \<Rightarrow> ScrubDefragState \<Rightarrow> ScrubDefragState \<Rightarrow> bool" where
  "goodRun r c p q \<longleftrightarrow>
     szUsable q = szUsable p
     \<and> (\<exists>k n. allocRun r p q k n \<and> k \<le> c + unat (szUsable p) * n)"

text \<open>
  \<open>gapStart a nPrefix\<close>: the offset of the first byte after the cell-pointer array,
  \<open>nPrefix + szHdr + 2 * nCell\<close>, as a natural number.
\<close>

definition gapStart :: "u8 list \<Rightarrow> nat \<Rightarrow> nat" where
  "gapStart a nPrefix = nPrefix + unat (btreeHdrSize a nPrefix) + 2 * unat (btreeCellCount a nPrefix)"

section \<open>Concrete sources and states\<close>

text \<open>
  A state as the driver leaves it after opening a source of 16390 pages of 65536 bytes,
  ten of them on the freelist: the lock page is page 16385.
\<close>

definition exampleState :: ScrubDefragState where
  "exampleState =
     \<lparr>rcErr = 0, zErr = None, szPage = 65536, szUsable = 65536, nDestPage = 0,
      nSrcPage = 16390, nFreePage = 10, page1 = replicate 100 0, iDestPageNo = 1,
      iLock = lockPage 65536, srcFile = [], destFile = [], destFails = [], mallocFails = [],
      nMalloc = 0\<rparr>"

text \<open>
  A source of 16386 pages of 65536 bytes with one page on the freelist. The lock page
  is page 16385, so the source holds 16385 pages, 16384 of them live.
\<close>

definition boundaryState :: ScrubDefragState where
  "boundaryState =
     \<lparr>rcErr = 0, zErr = None, szPage = 65536, szUsable = 65536, nDestPage = 0,
      nSrcPage = 16386, nFreePage = 1, page1 = replicate 100 0, iDestPageNo = 1,
      iLock = lockPage 65536, srcFile = [], destFile = [], destFails = [], mallocFails = [],
      nMalloc = 0\<rparr>"

text \<open>
  A source of two pages of 512 bytes: page 1 and page 2 are table leaves without cells.
  \<open>runState\<close> is the state before page 1 is rewritten, \<open>runState1\<close> the state after
  it and \<open>runState2\<close> the state after the tree rooted at page 2.
\<close>

definition leafPage :: "u8 list" where
  "leafPage = [0x0d, 0, 0, 0, 0, 2, 0, 0] @ replicate 504 0"

definition runState :: ScrubDefragState where
  "runState =
     \<lparr>rcErr = 0, zErr = None, szPage = 512, szUsable = 512, nDestPage = 2,
      nSrcPage = 2, nFreePage = 0, page1 = replicate 100 0 @ take 412 leafPage,
      iDestPageNo = 1, iLock = lockPage 512, srcFile = [(2, leafPage)],
      destFile = [], destFails = [], mallocFails = [], nMalloc = 0\<rparr>"

definition runState1 :: ScrubDefragState where
  "runState1 = runState\<lparr>iDestPageNo := 2, destFile := [(1, page1 runState)]\<rparr>"

definition runState2 :: ScrubDefragState where
  "runState2 = runState\<lparr>iDestPageNo := 3,
                 destFile := [(1, page1 runState), (2, leafPage)], nMalloc := 1\<rparr>"

definition rootRow :: catalogRow where
  "rootRow = \<lparr>rootpage = 2, name = ''t'', type = ''table''\<rparr>"

text \<open>
  A source whose page 2 is a table interior page with three cells: the first two point
  to the children 3 and 4, which the source does not hold, and the third cell pointer
  is 5, inside the page header. \<open>brokenState\<close> is the state before the tree at page 2
  is rewritten, \<open>errState\<close> the state when the read of page 3 has failed.
\<close>

definition brokenInterior :: "u8 list" where
  "brokenInterior =
     [5, 0, 0, 0, 3, 1, 0xEA, 0, 0, 0, 0, 6, 1, 0xEA, 1, 0xEF, 0, 5] @ replicate 472 0
       @ [0, 0, 0, 3, 1, 0, 0, 0, 4, 2] @ replicate 12 0"

definition brokenState :: ScrubDefragState where
  "brokenState =
     \<lparr>rcErr = 0, zErr = None, szPage = 512, szUsable = 512, nDestPage = 6,
      nSrcPage = 6, nFreePage = 0, page1 = replicate 100 0 @ take 412 leafPage,
      iDestPageNo = 2, iLock = lockPage 512, srcFile = [(2, brokenInterior)],
      destFile = [], destFails = [], mallocFails = [], nMalloc = 0\<rparr>"

definition errState :: ScrubDefragState where
  "errState = brokenState\<lparr>rcErr := SQLITE_IOERR, zErr := Some (MsgReadFailed 3),
                 iDestPageNo := 3, nMalloc := 2\<rparr>"

text \<open>
  A source whose page 5 is an overflow page with next-page field 9, two payload bytes
  that are not zero and stale bytes behind the first 100 payload bytes. \<open>chainState\<close>
  is the state when the copier is called for a chain of 100 bytes with head 5, after the
  caller has allocated page 3 for it; \<open>chainState'\<close> is the state it returns.
\<close>

definition chainPage :: "u8 list" where
  "chainPage = [0, 0, 0, 9, 0x55, 0x55] @ replicate 98 0 @ [0x77] @ replicate 406 0 @ [0x77]"

definition chainState :: ScrubDefragState where
  "chainState =
     \<lparr>rcErr = 0, zErr = None, szPage = 512, szUsable = 512, nDestPage = 4,
      nSrcPage = 9, nFreePage = 5, page1 = replicate 100 0 @ take 412 leafPage,
      iDestPageNo = 3, iLock = lockPage 512, srcFile = [(5, chainPage)],
      destFile = [], destFails = [], mallocFails = [], nMalloc = 0\<rparr>"

definition chainState' :: ScrubDefragState where
  "chainState' = chainState\<lparr>iDestPageNo := 4, nMalloc := 1,
      destFile := [(3, [0, 0, 0, 4, 0x55, 0x55] @ replicate 506 0)]\<rparr>"

text \<open>
  A page 1 that is a table leaf with one cell at offset 500 (payload of three bytes,
  all local) and stale bytes at both ends of the gap, 110 and 499. \<open>gapState\<close> is
  the state before page 1 is rewritten and \<open>gapState'\<close> the state after.
\<close>

definition gapPage :: "u8 list" where
  "gapPage = replicate 100 0 @ [0x0d, 0, 0, 0, 1, 1, 0xF4, 0, 1, 0xF4] @ [0xAA]
               @ replicate 388 0 @ [0xAA] @ [3, 1, 0x11, 0x22, 0x33] @ replicate 7 0"

definition gapPage' :: "u8 list" where
  "gapPage' = replicate 100 0 @ [0x0d, 0, 0, 0, 1, 1, 0xF4, 0, 1, 0xF4]
                @ replicate 390 0 @ [3, 1, 0x11, 0x22, 0x33] @ replicate 7 0"

definition gapState :: ScrubDefragState where
  "gapState =
     \<lparr>rcErr = 0, zErr = None, szPage = 512, szUsable = 512, nDestPage = 1,
      nSrcPage = 1, nFreePage = 0, page1 = gapPage, iDestPageNo = 1,
      iLock = lockPage 512, srcFile = [], destFile = [], destFails = [], mallocFails = [],
      nMalloc = 0\<rparr>"

definition gapState' :: ScrubDefragState where
  "gapState' = gapState\<lparr>page1 := gapPage', iDestPageNo := 2, destFile := [(1, gapPage')]\<rparr>"

text \<open>
  Two index and table leaves of 512 bytes with one cell each. The cell of
  \<open>bigCellPage\<close>, at offset 400, has a payload of 1000 bytes, a one-byte row id, 39
  local bytes and the overflow head 7 at offset 442. The cell of \<open>badCellPage\<close>, at
  offset 505, announces a payload of 200 bytes, more than \<open>X = 102\<close>, that would end
  beyond the page. \<open>badCellState\<close> is the state before the tree at page 2, which is
  \<open>badCellPage\<close>, is rewritten.
\<close>

definition bigCellPage :: "u8 list" where
  "bigCellPage = [0x0d, 0, 0, 0, 1, 1, 0x90, 0, 1, 0x90] @ replicate 390 0
                   @ [0x87, 0x68, 0x01] @ replicate 39 0 @ [0, 0, 0, 7] @ replicate 66 0"

definition badCellPage :: "u8 list" where
  "badCellPage = [0x0a, 0, 0, 0, 1, 1, 0xF9, 0, 1, 0xF9] @ replicate 495 0
                   @ [0x81, 0x48] @ replicate 5 0"

definition badCellState :: ScrubDefragState where
  "badCellState =
     \<lparr>rcErr = 0, zErr = None, szPage = 512, szUsable = 512, nDestPage = 3,
      nSrcPage = 3, nFreePage = 0, page1 = replicate 100 0 @ take 412 leafPage,
      iDestPageNo = 2, iLock = lockPage 512, srcFile = [(2, badCellPage)],
      destFile = [], destFails = [], mallocFails = [], nMalloc = 0\<rparr>"

text \<open>
  A catalog with a table at root 2, an index at root 3, a row of another type with root
  page 4 and a view, which has no root page.
\<close>

definition exampleCatalog :: "masterRow list" where
  "exampleCatalog =
     [\<lparr>mRootpage = Some 2, mName = ''t'', mType = ''table''\<rparr>,
      \<lparr>mRootpage = Some 3, mName = ''i'', mType = ''index''\<rparr>,
      \<lparr>mRootpage = Some 4, mName = ''x'', mType = ''other''\<rparr>,
      \<lparr>mRootpage = None, mName = ''v'', mType = ''view''\<rparr>]"

section \<open>Byte-level facts\<close>

lemma length_WriteInt32 [simp]: "length (scrubDefragWriteInt32 a off v) = length a"
  by (simp add: scrubDefragWriteInt32_def)

lemma bit_u8_lt: "bit (b :: u8) n \<Longrightarrow> n < 8"
  by (drule bit_imp_le_length) simp

lemma be32_bit:
  fixes b0 b1 b2 b3 :: u8
  shows "bit ((ucast b0 :: u32) + push_bit 8 (ucast b1) + push_bit 16 (ucast b2) + push_bit 24 (ucast b3)) n
       \<longleftrightarrow> (if n < 8 then bit b0 n else if n < 16 then bit b1 (n - 8)
            else if n < 24 then bit b2 (n - 16) else bit b3 (n - 24))"
proof -
  have 1: "(ucast b0 :: u32) + push_bit 8 (ucast b1) = ucast b0 OR push_bit 8 (ucast b1)"
    by (rule disjunctive_add_eq_or, rule bit_word_eqI) (auto simp: bit_simps dest: bit_u8_lt)
  have 2: "((ucast b0 :: u32) OR push_bit 8 (ucast b1)) + push_bit 16 (ucast b2)
         = (ucast b0 OR push_bit 8 (ucast b1)) OR push_bit 16 (ucast b2)"
    by (rule disjunctive_add_eq_or, rule bit_word_eqI) (auto simp: bit_simps dest: bit_u8_lt)
  have 3: "(((ucast b0 :: u32) OR push_bit 8 (ucast b1)) OR push_bit 16 (ucast b2)) + push_bit 24 (ucast b3)
         = ((ucast b0 OR push_bit 8 (ucast b1)) OR push_bit 16 (ucast b2)) OR push_bit 24 (ucast b3)"
    by (rule disjunctive_add_eq_or, rule bit_word_eqI) (auto simp: bit_simps dest: bit_u8_lt)
  show ?thesis
    by (simp only: 1 2 3) (auto simp: bit_simps dest: bit_u8_lt)
qed


lemma be32_roundtrip:
  fixes v :: u32
  shows "ucast (ucast (v AND 0xff) :: u8) + push_bit 8 (ucast (ucast (drop_bit 8 v AND 0xff) :: u8))
          + push_bit 16 (ucast (ucast (drop_bit 16 v AND 0xff) :: u8))
          + push_bit 24 (ucast (ucast (drop_bit 24 v AND 0xff) :: u8)) = v" (is "?L = v")
proof (rule bit_word_eqI)
  fix n assume n: "n < LENGTH(32)"
  have m: "(0xff :: u32) = mask 8" by (simp add: mask_eq_exp_minus_1)
  consider "n < 8" | "8 \<le> n" "n < 16" | "16 \<le> n" "n < 24" | "24 \<le> n" "n < 32"
    using n by fastforce
  then show "bit ?L n = bit v n"
    unfolding be32_bit m by cases (auto simp: bit_simps)
qed

lemma nth_WriteInt32_other:
  "i < off \<or> off + 4 \<le> i \<Longrightarrow> scrubDefragWriteInt32 a off v ! i = a ! i"
  by (auto simp: scrubDefragWriteInt32_def)

lemma byteAt_WriteInt32_other:
  "i < off \<or> off + 4 \<le> i \<Longrightarrow> byteAt (scrubDefragWriteInt32 a off v) i = byteAt a i"
  by (auto simp: byteAt_def nth_WriteInt32_other)

lemma Int32_WriteInt32_same:
  "off + 4 \<le> length a \<Longrightarrow> scrubDefragInt32 (scrubDefragWriteInt32 a off v) off = v"
  by (simp add: scrubDefragInt32_def scrubDefragWriteInt32_def byteAt_def be32_roundtrip)

lemma Int32_WriteInt32_other:
  "off' + 4 \<le> off \<or> off + 4 \<le> off' \<Longrightarrow>
     scrubDefragInt32 (scrubDefragWriteInt32 a off v) off' = scrubDefragInt32 a off'"
  by (auto simp: scrubDefragInt32_def byteAt_WriteInt32_other)

section \<open>Varints: size and decoder agree\<close>

lemma varintLoop_len: "snd (varintLoop z v i) = varintSizeLoop z i"
proof (induction z v i rule: varintLoop.induct)
  case (1 z v i)
  show ?case
    using "1.IH" by (subst varintLoop.simps, subst varintSizeLoop.simps) auto
qed

lemma varintSizeLoop_range: "i \<le> 8 \<Longrightarrow> Suc i \<le> varintSizeLoop z i \<and> varintSizeLoop z i \<le> 9"
proof (induction z i rule: varintSizeLoop.induct)
  case (1 z i)
  show ?case
  proof (cases "i < 8 \<and> byteAt z i AND 0x80 \<noteq> 0")
    case True
    with "1.IH" have "Suc (i + 1) \<le> varintSizeLoop z (i + 1) \<and> varintSizeLoop z (i + 1) \<le> 9"
      by simp
    with True show ?thesis by (subst (1 2) varintSizeLoop.simps) simp
  next
    case False
    with "1.prems" show ?thesis by (subst (1 2) varintSizeLoop.simps) auto
  qed
qed

text \<open>
  Claim C10. On every byte sequence of at least nine bytes \<open>scrubDefragVarintSize\<close>
  returns the byte count that \<open>scrubDefragVarint\<close> returns, and both counts lie
  between 1 and 9.
\<close>

theorem varint_size_agrees:
  "9 \<le> length z \<Longrightarrow>
     scrubDefragVarintSize z = snd (scrubDefragVarint z)
     \<and> 1 \<le> scrubDefragVarintSize z \<and> scrubDefragVarintSize z \<le> 9
     \<and> 1 \<le> snd (scrubDefragVarint z) \<and> snd (scrubDefragVarint z) \<le> 9"
  using varintSizeLoop_range [of 0 z]
  by (simp add: scrubDefragVarintSize_def scrubDefragVarint_def varintLoop_len)


theorem varint_size_agrees_witness:
  "9 \<le> length [0x81, 0x82, 0x03, 0, 0, 0, 0, 0, 0 :: u8]
   \<and> scrubDefragVarintSize [0x81, 0x82, 0x03, 0, 0, 0, 0, 0, 0] = 3
   \<and> snd (scrubDefragVarint [0x81, 0x82, 0x03, 0, 0, 0, 0, 0, 0]) = 3"
proof -
  have "scrubDefragVarintSize [0x81, 0x82, 0x03, 0, 0, 0, 0, 0, 0] = 3"
    by code_simp
  with varint_size_agrees [of "[0x81, 0x82, 0x03, 0, 0, 0, 0, 0, 0]"] show ?thesis by simp
qed


section \<open>The allocator and the header fix\<close>

lemma iLock_inc [simp]: "iLock (scrubDefragIncDestPageNo p) = iLock p"
  by (simp add: scrubDefragIncDestPageNo_def Let_def)

lemma iLock_funpow_inc [simp]: "iLock ((scrubDefragIncDestPageNo ^^ n) p) = iLock p"
  by (induction n) simp_all

lemma allocSeq_Suc:
  "allocSeq p (Suc n) =
     (if allocSeq p n + 1 = iLock p then allocSeq p n + 2 else allocSeq p n + 1)"
  by (auto simp: allocSeq_def scrubDefragIncDestPageNo_def Let_def add.commute)

lemma inc_not_lock: "iDestPageNo (scrubDefragIncDestPageNo p) \<noteq> iLock p"
  by (simp add: scrubDefragIncDestPageNo_def Let_def)

lemma allocSeq_0: "allocSeq p 0 = iDestPageNo p"
  by (simp add: allocSeq_def)

lemma allocSeq_cong:
  assumes "iDestPageNo q = iDestPageNo p" and "iLock q = iLock p"
  shows "allocSeq q n = allocSeq p n"
  by (induction n) (simp_all add: allocSeq_Suc assms, simp add: allocSeq_def assms)

lemma allocSeq_shift:
  assumes "iDestPageNo q = allocSeq p k" and "iLock q = iLock p"
  shows "allocSeq q n = allocSeq p (k + n)"
proof (induction n)
  case 0
  then show ?case using assms by (simp add: allocSeq_def)
next
  case (Suc n)
  then show ?case by (simp add: allocSeq_Suc assms(2))
qed

lemma allocSeq_1: "allocSeq p 1 = iDestPageNo (scrubDefragIncDestPageNo p)"
  by (simp add: allocSeq_def)

lemma allocSeq_step:
  assumes "unat (allocSeq p n) + 2 < 2 ^ 32"
  shows "unat (allocSeq p n) < unat (allocSeq p (Suc n))"
    and "unat (allocSeq p (Suc n)) \<le> unat (allocSeq p n) + 2"
proof -
  let ?a = "allocSeq p n"
  have u1: "unat (?a + 1) = unat ?a + 1"
    using assms by (simp add: unat_add_lem [THEN iffD1])
  have u2: "unat (?a + 2) = unat ?a + 2"
    using assms by (simp add: unat_add_lem [THEN iffD1])
  show "unat ?a < unat (allocSeq p (Suc n))"
    using u1 u2 by (simp add: allocSeq_Suc)
  show "unat (allocSeq p (Suc n)) \<le> unat ?a + 2"
    using u1 u2 by (simp add: allocSeq_Suc)
qed

lemma allocSeq_le:
  "unat (iDestPageNo p) + 2 * n < 2 ^ 32 \<Longrightarrow> unat (allocSeq p n) \<le> unat (iDestPageNo p) + 2 * n"
proof (induction n)
  case 0
  then show ?case by (simp add: allocSeq_0)
next
  case (Suc n)
  then have IH: "unat (allocSeq p n) \<le> unat (iDestPageNo p) + 2 * n" by simp
  then have "unat (allocSeq p n) + 2 < 2 ^ 32" using Suc.prems by simp
  from allocSeq_step(2) [OF this] IH show ?case by simp
qed

text \<open>
  Below the wrap of the 32-bit counter the allocator sequence is strictly increasing,
  from any start.
\<close>

lemma allocSeq_increasing:
  assumes "j < k" and "unat (iDestPageNo p) + 2 * k < 2 ^ 32"
  shows "allocSeq p j < allocSeq p k"
  using assms
proof (induction k)
  case 0
  then show ?case by simp
next
  case (Suc k)
  have b: "unat (iDestPageNo p) + 2 * k < 2 ^ 32" using Suc.prems(2) by simp
  have "unat (allocSeq p k) + 2 < 2 ^ 32" using allocSeq_le [OF b] Suc.prems(2) by simp
  then have s: "unat (allocSeq p k) < unat (allocSeq p (Suc k))" by (rule allocSeq_step(1))
  show ?case
  proof (cases "j = k")
    case True
    then show ?thesis using s by (simp add: word_less_nat_alt)
  next
    case False
    then have "allocSeq p j < allocSeq p k" using Suc.IH Suc.prems(1) b by simp
    then show ?thesis using s by (simp add: word_less_nat_alt)
  qed
qed

lemma lockPage_ge2:
  assumes "sz \<noteq> 0" "sz \<le> 1073742335"
  shows "2 \<le> unat (lockPage sz)"
proof -
  have "unat sz \<le> 1073742335" using assms(2) by (simp add: word_le_nat_alt)
  moreover have "0 < unat sz" using assms(1) by (simp add: unat_gt_0)
  ultimately have "1 \<le> 1073742335 div unat sz"
    by (simp add: Suc_le_eq div_greater_zero_iff)
  moreover have "(1073742335 :: nat) div unat sz < 4294967295"
    by (rule le_less_trans [OF div_le_dividend]) simp
  moreover have "unat ((1073742335 :: u32) div sz) = 1073742335 div unat sz"
    by (simp add: unat_div)
  ultimately have "unat ((1073742335 :: u32) div sz) + unat (1 :: u32) < 2 ^ LENGTH(32)"
    and "1 \<le> unat ((1073742335 :: u32) div sz)"
    by simp_all
  then show ?thesis
    unfolding lockPage_def by (simp add: unat_add_lem [THEN iffD1])
qed

lemma allocSeq_closed:
  assumes "iDestPageNo p = 1" "2 \<le> unat (iLock p)" "n + 2 < 2 ^ 32"
  shows "unat (allocSeq p n) = (if n + 1 < unat (iLock p) then n + 1 else n + 2)"
  using assms(3)
proof (induction n)
  case 0
  then show ?case using assms(1,2) by (simp add: allocSeq_def)
next
  case (Suc n)
  then have IH: "unat (allocSeq p n) = (if n + 1 < unat (iLock p) then n + 1 else n + 2)"
    by simp
  have b: "unat (allocSeq p n) + 1 < 2 ^ 32" using IH Suc.prems by (simp split: if_splits)
  have u1: "unat (allocSeq p n + 1) = unat (allocSeq p n) + 1"
    using b by (simp add: unat_word_ariths)
  have eq: "allocSeq p n + 1 = iLock p \<longleftrightarrow> unat (allocSeq p n) + 1 = unat (iLock p)"
    using u1 by (metis word_unat_eq_iff)
  show ?case
  proof (cases "allocSeq p n + 1 = iLock p")
    case True
    then have low: "n + 1 < unat (iLock p)" using IH eq by (auto split: if_splits)
    then have "unat (allocSeq p n) + 2 < 2 ^ 32" using IH Suc.prems by simp
    then have u2: "unat (allocSeq p n + 2) = unat (allocSeq p n) + 2"
      by (simp add: unat_word_ariths)
    show ?thesis unfolding allocSeq_Suc using True IH u2 eq low by auto
  next
    case False
    then show ?thesis unfolding allocSeq_Suc using IH u1 eq by (auto split: if_splits)
  qed
qed

text \<open>
  Claim C8. The allocator starts at page number 1. With the lock page computed from a
  page size between 1 and 1073742335 (every legal page size is), the numbers it holds
  after \<open>i\<close> and after \<open>j > i\<close> advances are strictly increasing and neither is
  the lock page, as long as the 32-bit counter has not run out (\<open>j + 2 < 2 ^ 32\<close>).
\<close>

theorem allocator_sequence:
  assumes "iDestPageNo p = 1" and "iLock p = lockPage (szPage p)"
    and "szPage p \<noteq> 0" and "szPage p \<le> 1073742335"
    and "i < j" and "j + 2 < 2 ^ 32"
  shows "allocSeq p 0 = 1 \<and> allocSeq p i < allocSeq p j
         \<and> allocSeq p i \<noteq> iLock p \<and> allocSeq p j \<noteq> iLock p"
proof -
  have L: "2 \<le> unat (iLock p)" using assms(2,3,4) by (simp add: lockPage_ge2)
  have ci: "unat (allocSeq p i) = (if i + 1 < unat (iLock p) then i + 1 else i + 2)"
    using assms(1,5,6) L by (intro allocSeq_closed) auto
  have cj: "unat (allocSeq p j) = (if j + 1 < unat (iLock p) then j + 1 else j + 2)"
    using assms(1,6) L by (intro allocSeq_closed) auto
  have "allocSeq p 0 = 1" using assms(1) by (simp add: allocSeq_def)
  moreover have "allocSeq p i < allocSeq p j"
    using ci cj assms(5) by (auto simp: word_less_nat_alt)
  moreover have "allocSeq p i \<noteq> iLock p" using ci by (auto split: if_splits)
  moreover have "allocSeq p j \<noteq> iLock p" using cj by (auto split: if_splits)
  ultimately show ?thesis by simp
qed

theorem allocator_sequence_witness:
  "iDestPageNo exampleState = 1 \<and> iLock exampleState = lockPage (szPage exampleState)
   \<and> szPage exampleState \<noteq> 0 \<and> szPage exampleState \<le> 1073742335
   \<and> (1::nat) < 2 \<and> (2::nat) + 2 < 2 ^ 32
   \<and> allocSeq exampleState 0 = 1 \<and> allocSeq exampleState 1 < allocSeq exampleState 2
   \<and> allocSeq exampleState 1 \<noteq> iLock exampleState"
  using allocator_sequence [of exampleState 1 2]
  by (simp add: exampleState_def)

lemma length_page1_headerFix [simp]: "length (page1 (headerFix s)) = length (page1 s)"
  by (simp add: headerFix_def Let_def)

lemma nDestPage_headerFix:
  "nDestPage (headerFix s) =
     nSrcPage s - nFreePage s
       - (if iLock s \<le> nSrcPage s \<and> nSrcPage s - nFreePage s < iLock s then 1 else 0)"
  by (simp add: headerFix_def Let_def)

lemma page1_headerFix:
  "page1 (headerFix s) =
     scrubDefragWriteInt32 (scrubDefragWriteInt32 (scrubDefragWriteInt32
       (scrubDefragWriteInt32 (page1 s) 28 (nDestPage (headerFix s))) 32 0) 36 0) 52 0"
  by (simp add: headerFix_def Let_def)

text \<open>
  What the header fix stores at offset 28, as the code computes it: the source page
  count minus the freelist count, minus one more exactly when the source reaches the
  lock page and the difference itself is below the number of the lock page. The first
  conjunct is the equation in the code's unsigned 32-bit arithmetic; the second is the
  same equation over the integers, for a source whose freelist is smaller than the file.
\<close>

lemma headerFix_stored:
  assumes "32 \<le> length (page1 s)"
  shows "scrubDefragInt32 (page1 (headerFix s)) 28 =
           nSrcPage s - nFreePage s
             - (if iLock s \<le> nSrcPage s \<and> nSrcPage s - nFreePage s < iLock s then 1 else 0)
         \<and> (uint (nFreePage s) < uint (nSrcPage s) \<longrightarrow>
              uint (scrubDefragInt32 (page1 (headerFix s)) 28) =
                uint (nSrcPage s) - uint (nFreePage s)
                  - (if uint (iLock s) \<le> uint (nSrcPage s)
                        \<and> uint (nSrcPage s) - uint (nFreePage s) < uint (iLock s)
                     then 1 else 0))"
proof -
  have rd: "scrubDefragInt32 (page1 (headerFix s)) 28 = nDestPage (headerFix s)"
    using assms by (simp add: page1_headerFix Int32_WriteInt32_other Int32_WriteInt32_same)
  have w: "scrubDefragInt32 (page1 (headerFix s)) 28 =
           nSrcPage s - nFreePage s
             - (if iLock s \<le> nSrcPage s \<and> nSrcPage s - nFreePage s < iLock s then 1 else 0)"
    by (simp only: rd nDestPage_headerFix)
  have n: "uint (scrubDefragInt32 (page1 (headerFix s)) 28) =
                uint (nSrcPage s) - uint (nFreePage s)
                  - (if uint (iLock s) \<le> uint (nSrcPage s)
                        \<and> uint (nSrcPage s) - uint (nFreePage s) < uint (iLock s)
                     then 1 else 0)"
    if lt: "uint (nFreePage s) < uint (nSrcPage s)"
  proof -
    have d: "uint (nSrcPage s - nFreePage s) = uint (nSrcPage s) - uint (nFreePage s)"
      using lt by (simp add: uint_sub_lem [THEN iffD1])
    have "uint (1 :: u32) \<le> uint (nSrcPage s - nFreePage s)" using d lt by simp
    then have d1: "uint (nSrcPage s - nFreePage s - 1) = uint (nSrcPage s) - uint (nFreePage s) - 1"
      using d by (simp add: uint_sub_lem [THEN iffD1])
    show ?thesis
      unfolding w using d d1 by (simp add: word_le_def word_less_def)
  qed
  show ?thesis using w n by blast
qed

text \<open>
  Claim C2. The count stored at offset 28 is the source page count minus the freelist
  count, reduced by one more exactly when the source crossed the lock page while the
  dense destination does not. The code tests the difference \<open>nSrcPage - nFreePage\<close>
  against the lock page, not the number of pages the destination receives, and the two
  tests differ when the difference equals the number of the lock page. For the source
  \<open>boundaryState\<close> (16386 pages, one free, lock page 16385) the header fix stores 16385,
  the count in the specification's words is 16384, and the allocator gives the 16384
  live pages the numbers 1 to 16384: the destination stays below the lock page, the
  next number after its last page is 16386, and the stored count names a page, the lock
  page itself, that no page of the destination ever holds.
\<close>

theorem headerFix_lock_boundary:
  "iLock boundaryState = 16385
   \<and> uint (nSrcPage boundaryState) = 16386 \<and> uint (nFreePage boundaryState) = 1
   \<and> scrubDefragInt32 (page1 (headerFix boundaryState)) 28 = 16385
   \<and> specDestPageCount 16386 1 16385 = 16384
   \<and> allocSeq boundaryState 0 = 1
   \<and> allocSeq boundaryState 16383 = 16384
   \<and> allocSeq boundaryState 16384 = 16386"
proof -
  have L: "iLock boundaryState = 16385" by (simp add: boundaryState_def lockPage_def)
  have i: "iDestPageNo boundaryState = 1" by (simp add: boundaryState_def)
  have l2: "2 \<le> unat (iLock boundaryState)" by (simp add: L)
  have h: "scrubDefragInt32 (page1 (headerFix boundaryState)) 28 = 16385"
    using headerFix_stored [of boundaryState] L
    by (simp add: boundaryState_def)
  have a0: "allocSeq boundaryState 0 = 1" using i by (simp add: allocSeq_def)
  have "unat (allocSeq boundaryState 16383) = 16384"
    using allocSeq_closed [OF i l2, of 16383] by (simp add: L)
  then have a1: "allocSeq boundaryState 16383 = 16384"
    by (simp add: word_unat_eq_iff)
  have "unat (allocSeq boundaryState 16384) = 16386"
    using allocSeq_closed [OF i l2, of 16384] by (simp add: L)
  then have a2: "allocSeq boundaryState 16384 = 16386"
    by (simp add: word_unat_eq_iff)
  have s: "specDestPageCount 16386 1 16385 = 16384" by (simp add: specDestPageCount_def)
  have u: "uint (nSrcPage boundaryState) = 16386 \<and> uint (nFreePage boundaryState) = 1"
    by (simp add: boundaryState_def)
  show ?thesis using L h a0 a1 a2 s u by blast
qed



section \<open>States of a run only grow\<close>

lemma SQLITE_nonzero [simp]:
  "SQLITE_ERROR \<noteq> 0" "SQLITE_NOMEM \<noteq> 0" "SQLITE_IOERR \<noteq> 0" "SQLITE_CORRUPT \<noteq> 0"
  by (simp_all add: SQLITE_ERROR_def SQLITE_NOMEM_def SQLITE_IOERR_def SQLITE_CORRUPT_def)

lemma laterState_refl [simp]: "laterState p p"
  by (simp add: laterState_def)

lemma laterState_trans: "laterState p q \<Longrightarrow> laterState q r \<Longrightarrow> laterState p r"
  by (auto simp: laterState_def)

lemma later_inc [simp]: "laterState p (scrubDefragIncDestPageNo p)"
  by (simp add: laterState_def scrubDefragIncDestPageNo_def Let_def)

lemma later_Err [simp]: "laterState p (scrubDefragErr p m)"
  by (simp add: laterState_def scrubDefragErr_def Let_def)

lemma rcErr_Err [simp]: "rcErr (scrubDefragErr p m) \<noteq> 0"
  by (simp add: scrubDefragErr_def Let_def)

lemma later_page1 [simp]: "laterState p (p\<lparr>page1 := b\<rparr>)"
  by (simp add: laterState_def)

lemma later_AllocPage: "laterState p (fst (scrubDefragAllocPage p))"
  by (simp add: laterState_def scrubDefragAllocPage_def)

lemma AllocPage_fail: "scrubDefragAllocPage p = (q, False) \<Longrightarrow> rcErr q \<noteq> 0"
  by (auto simp: scrubDefragAllocPage_def split: if_splits)

lemma later_Read: "laterState p (fst (scrubDefragRead p pgno hasBuf))"
  by (auto simp: laterState_def scrubDefragRead_def scrubDefragAllocPage_def scrubDefragErr_def
      Let_def split: option.splits)

lemma Read_fail: "scrubDefragRead p pgno hasBuf = (q, None) \<Longrightarrow> rcErr q \<noteq> 0"
  by (auto simp: scrubDefragRead_def scrubDefragAllocPage_def split: if_splits option.splits)

lemma Read_length:
  "scrubDefragRead p pgno hasBuf = (q, Some a) \<Longrightarrow> length a = unat (szPage p)"
  by (auto simp: scrubDefragRead_def scrubDefragAllocPage_def xRead_def
      split: if_splits option.splits)

lemma later_Write [simp]: "laterState p (scrubDefragWrite p pgno d)"
  by (simp add: laterState_def scrubDefragWrite_def scrubDefragErr_def Let_def)

lemma Write_ok:
  "rcErr (scrubDefragWrite p pgno d) = 0 \<Longrightarrow>
     destFile (scrubDefragWrite p pgno d) = destFile p @ [(pgno, d)] \<and> rcErr p = 0"
  by (auto simp: scrubDefragWrite_def split: if_splits)

lemma later_setBuf [simp]: "laterState p (fst (setBuf pgno p a b))"
  by (simp add: setBuf_def)

lemma later_StorePtr [simp]: "laterState p (fst (btreeStorePtr p a pgno off))"
  by (auto simp: btreeStorePtr_def setBuf_def intro: laterState_trans [OF later_inc])

lemma later_Corrupt [simp]: "laterState p (btreeCorrupt p pgno ln)"
  by (simp add: btreeCorrupt_def)

lemma later_Finish [simp]: "laterState p (btreeFinish p a pgno bRoot iCur)"
  by (auto simp: btreeFinish_def Let_def intro: laterState_trans [OF later_inc])

lemma later_Load: "laterState p (fst (btreeLoad p pgno))"
  by (simp add: btreeLoad_def later_Read)

lemma later_overflowPage: "laterState p (fst (overflowPage p a nByte))"
  by (auto simp: overflowPage_def overflowLink_def split: prod.splits if_splits
      intro: laterState_trans [OF later_inc])

lemma later_overflowLoop:
  assumes "overflowLoop p pgno nByte = Some q"
  shows "laterState p q"
proof (rule overflowLoop.raw_induct [where P = "\<lambda>p pgno nByte q. laterState p q", OF _ assms],
    goal_cases)
  case (1 f p pgno nByte q)
  show ?case
  proof (cases "0 < nByte \<and> pgno \<noteq> 0")
    case False
    with 1(2) show ?thesis by auto
  next
    case True
    obtain p1 r where rd: "scrubDefragRead p pgno True = (p1, r)" by fastforce
    have l1: "laterState p p1" using later_Read [of p pgno True] rd by simp
    show ?thesis
    proof (cases r)
      case None
      with 1(2) True rd l1 show ?thesis by simp
    next
      case (Some a)
      obtain p2 pgno1 nByte1 where op: "overflowPage p1 a nByte = (p2, pgno1, nByte1)"
        by (metis prod_cases3)
      have l2: "laterState p1 p2" using later_overflowPage [of p1 a nByte] op by simp
      have "f p2 pgno1 nByte1 = Some q" using 1(2) True rd Some op by simp
      then have "laterState p2 q" by (rule 1(1))
      then show ?thesis using l1 l2 by (blast intro: laterState_trans)
    qed
  qed
qed

lemma later_Overflow: "scrubDefragOverflow p pgno nByte = Some q \<Longrightarrow> laterState p q"
  using later_AllocPage [of p]
  by (auto simp: scrubDefragOverflow_def split: prod.splits bool.splits
      dest: later_overflowLoop intro: laterState_trans)

lemma later_cellFinish: "cellFinish p a pgno pc = Some (q, b, ln) \<Longrightarrow> laterState p q"
proof -
  assume cf: "cellFinish p a pgno pc = Some (q, b, ln)"
  show ?thesis
  proof (cases "cellPayload (szUsable p) (byteAt (curBuf pgno p a) (btreePrefix pgno))
                  (curBuf pgno p a) pc")
    case (CellCorrupt n)
    with cf show ?thesis by (simp add: cellFinish_def)
  next
    case CellLocal
    with cf show ?thesis by (simp add: cellFinish_def)
  next
    case (CellOverflow off iChild nByte)
    with cf have "scrubDefragOverflow (fst (btreeStorePtr p a pgno off)) iChild nByte = Some q"
      by (auto simp: cellFinish_def split: prod.splits option.splits)
    then have "laterState (fst (btreeStorePtr p a pgno off)) q" by (rule later_Overflow)
    then show ?thesis by (rule laterState_trans [OF later_StorePtr])
  qed
qed

lemma later_Btree_Cells:
  "(scrubDefragBtree p pgno iDepth bRoot = Some q \<longrightarrow> laterState p q)"
  "(btreeCells p' a pgno' iDepth' szHdr nCell i = Some (q', a', ln) \<longrightarrow> laterState p' q')"
proof (induction p pgno iDepth bRoot and p' a pgno' iDepth' szHdr nCell i
       arbitrary: q and q' a' ln rule: scrubDefragBtree_btreeCells.induct)
  case (1 p pgno iDepth bRoot)
  show ?case
  proof
    assume run: "scrubDefragBtree p pgno iDepth bRoot = Some q"
    show "laterState p q"
    proof (cases "rcErr p \<noteq> 0 \<or> 50 < iDepth")
      case True
      with run show ?thesis
        by (subst (asm) scrubDefragBtree.simps) (auto split: if_splits)
    next
      case False
      obtain p1 r where ld: "btreeLoad p pgno = (p1, r)" by fastforce
      have l1: "laterState p p1" using later_Load [of p pgno] ld by simp
      show ?thesis
      proof (cases r)
        case None
        with run False ld l1 show ?thesis by (subst (asm) scrubDefragBtree.simps) simp
      next
        case (Some a)
        obtain b h where hd: "btreeHeader (szUsable p1) (btreePrefix pgno) (curBuf pgno p1 a) = (b, h)"
          by fastforce
        have l2: "laterState p (fst (setBuf pgno p1 a b))"
          by (rule laterState_trans [OF l1 later_setBuf])
        show ?thesis
        proof (cases h)
          case (Some n)
          with run False ld \<open>r = Some a\<close> hd have "q = btreeCorrupt (fst (setBuf pgno p1 a b)) pgno n"
            by (subst (asm) scrubDefragBtree.simps) simp
          then show ?thesis using l2 by (auto intro: laterState_trans)
        next
          case None
          let ?cells = "btreeCells (fst (setBuf pgno p1 a b)) (snd (setBuf pgno p1 a b)) pgno iDepth
                     (btreeHdrSize (curBuf pgno p1 a) (btreePrefix pgno))
                     (unat (btreeCellCount (curBuf pgno p1 a) (btreePrefix pgno))) 0"
          from run False ld \<open>r = Some a\<close> hd None obtain p3 a3 c where
            cs: "?cells = Some (p3, a3, c)"
            by (subst (asm) scrubDefragBtree.simps) (auto split: option.splits)
          have l3: "laterState (fst (setBuf pgno p1 a b)) p3"
            using "1.IH"(1) [OF _ _ ld [symmetric] \<open>r = Some a\<close> hd [symmetric] None] False cs
            by simp
          have l3': "laterState p p3" by (rule laterState_trans [OF l2 l3])
          show ?thesis
          proof (cases c)
            case (Some n)
            with run False ld \<open>r = Some a\<close> hd None cs have "q = btreeCorrupt p3 pgno n"
              by (subst (asm) scrubDefragBtree.simps) simp
            then show ?thesis using l3' by (auto intro: laterState_trans)
          next
            case cNone: None
            show ?thesis
            proof (cases "isInterior (curBuf pgno p3 a3) (btreePrefix pgno)")
              case False
              with run \<open>\<not> (rcErr p \<noteq> 0 \<or> 50 < iDepth)\<close> ld \<open>r = Some a\<close> hd None cs cNone
              have "q = btreeFinish p3 a3 pgno bRoot (iDestPageNo p)"
                by (subst (asm) scrubDefragBtree.simps) simp
              then show ?thesis using l3' by (auto intro: laterState_trans)
            next
              case True
              let ?st = "btreeStorePtr p3 a3 pgno (btreePrefix pgno + 8)"
              from run \<open>\<not> (rcErr p \<noteq> 0 \<or> 50 < iDepth)\<close> ld \<open>r = Some a\<close> hd None cs cNone True
              obtain p5 where
                ch: "scrubDefragBtree (fst ?st)
                       (scrubDefragInt32 (curBuf pgno p3 a3) (btreePrefix pgno + 8)) (iDepth + 1) False
                     = Some p5"
                and q: "q = btreeFinish p5 (snd ?st) pgno bRoot (iDestPageNo p)"
                by (subst (asm) scrubDefragBtree.simps) (auto split: option.splits)
              have "laterState (fst ?st) p5"
                using "1.IH"(2) [OF _ _ ld [symmetric] \<open>r = Some a\<close> hd [symmetric] None cs _ _ cNone True]
                  \<open>\<not> (rcErr p \<noteq> 0 \<or> 50 < iDepth)\<close> ch
                by simp
              then have "laterState p p5"
                by (blast intro: laterState_trans l3' later_StorePtr)
              then show ?thesis unfolding q by (auto intro: laterState_trans)
            qed
          qed
        qed
      qed
    qed
  qed
next
  case (2 p a pgno iDepth szHdr nCell i)
  show ?case
  proof
    assume run: "btreeCells p a pgno iDepth szHdr nCell i = Some (q', a', ln)"
    show "laterState p q'"
    proof (cases "i < nCell")
      case False
      with run show ?thesis by (subst (asm) btreeCells.simps) simp
    next
      case True
      show ?thesis
      proof (cases "cellEnter (szUsable p) (btreePrefix pgno) szHdr (curBuf pgno p a) i")
        case (EntryCorrupt n)
        with run True show ?thesis by (subst (asm) btreeCells.simps) simp
      next
        case (EntryLeaf pc)
        from run True EntryLeaf obtain p4 a4 c where
          cf: "cellFinish p a pgno pc = Some (p4, a4, c)"
          by (subst (asm) btreeCells.simps) (auto split: option.splits)
        have l1: "laterState p p4" using cf by (rule later_cellFinish)
        show ?thesis
        proof (cases c)
          case (Some n)
          with run True EntryLeaf cf l1 show ?thesis by (subst (asm) btreeCells.simps) simp
        next
          case None
          with run True EntryLeaf cf
          have "btreeCells p4 a4 pgno iDepth szHdr nCell (i + 1) = Some (q', a', ln)"
            by (subst (asm) btreeCells.simps) simp
          then have "laterState p4 q'"
            using "2.IH"(1) [OF True EntryLeaf cf _ _ None] by simp
          then show ?thesis using l1 by (blast intro: laterState_trans)
        qed
      next
        case (EntryInterior iChild pc)
        let ?st = "btreeStorePtr p a pgno (unat pc)"
        from run True EntryInterior obtain p3 where
          ch: "scrubDefragBtree (fst ?st) iChild (iDepth + 1) False = Some p3"
          by (subst (asm) btreeCells.simps) (auto split: option.splits)
        have "laterState (fst ?st) p3"
          using "2.IH"(2) [OF True EntryInterior] ch by simp
        then have l1: "laterState p p3" by (blast intro: laterState_trans later_StorePtr)
        show ?thesis
        proof (cases "byteAt (curBuf pgno p3 (snd ?st)) (btreePrefix pgno) = 5")
          case k5: True
          with run True EntryInterior ch
          have "btreeCells p3 (snd ?st) pgno iDepth szHdr nCell (i + 1) = Some (q', a', ln)"
            by (subst (asm) btreeCells.simps) simp
          then have "laterState p3 q'"
            using "2.IH"(3) [OF True EntryInterior ch k5] by simp
          then show ?thesis using l1 by (blast intro: laterState_trans)
        next
          case k5: False
          from run True EntryInterior ch k5 obtain p4 a4 c where
            cf: "cellFinish p3 (snd ?st) pgno (pc + 4) = Some (p4, a4, c)"
            by (subst (asm) btreeCells.simps) (auto split: option.splits)
          have l2: "laterState p p4"
            using cf l1 by (blast intro: laterState_trans later_cellFinish)
          show ?thesis
          proof (cases c)
            case (Some n)
            with run True EntryInterior ch k5 cf l2 show ?thesis by (subst (asm) btreeCells.simps) simp
          next
            case None
            with run True EntryInterior ch k5 cf
            have "btreeCells p4 a4 pgno iDepth szHdr nCell (i + 1) = Some (q', a', ln)"
              by (subst (asm) btreeCells.simps) simp
            then have "laterState p4 q'"
              using "2.IH"(4) [OF True EntryInterior ch k5 cf _ _ None] by simp
            then show ?thesis using l2 by (blast intro: laterState_trans)
          qed
        qed
      qed
    qed
  qed
qed


lemma later_Btree: "scrubDefragBtree p pgno iDepth bRoot = Some q \<Longrightarrow> laterState p q"
  using later_Btree_Cells(1) by blast

lemma later_Cells:
  "btreeCells p a pgno iDepth szHdr nCell i = Some (q, b, ln) \<Longrightarrow> laterState p q"
  using later_Btree_Cells(2) by blast

section \<open>The sticky error and the relocator loop\<close>

lemma AllocPage_err: "rcErr p \<noteq> 0 \<Longrightarrow> scrubDefragAllocPage p = (p, False)"
  by (simp add: scrubDefragAllocPage_def)

lemma Read_err: "rcErr p \<noteq> 0 \<Longrightarrow> scrubDefragRead p pgno hasBuf = (p, None)"
  by (simp add: scrubDefragRead_def)

lemma Write_err: "rcErr p \<noteq> 0 \<Longrightarrow> scrubDefragWrite p pgno d = p"
  by (simp add: scrubDefragWrite_def)

lemma Overflow_err: "rcErr p \<noteq> 0 \<Longrightarrow> scrubDefragOverflow p pgno nByte = Some p"
  by (simp add: scrubDefragOverflow_def AllocPage_err)

lemma Btree_err: "rcErr p \<noteq> 0 \<Longrightarrow> scrubDefragBtree p pgno iDepth bRoot = Some p"
  by (subst scrubDefragBtree.simps) simp

lemma rcErr_Err_keep: "rcErr p \<noteq> 0 \<Longrightarrow> rcErr (scrubDefragErr p m) = rcErr p"
  by (simp add: scrubDefragErr_def Let_def)

lemma StorePtr_fields [simp]:
  "rcErr (fst (btreeStorePtr p a pgno off)) = rcErr p"
  "destFile (fst (btreeStorePtr p a pgno off)) = destFile p"
  by (simp_all add: btreeStorePtr_def setBuf_def scrubDefragIncDestPageNo_def Let_def)

lemma cellFinish_err:
  assumes "rcErr p \<noteq> 0"
  shows "\<exists>q b ln. cellFinish p a pgno pc = Some (q, b, ln) \<and> rcErr q = rcErr p
           \<and> destFile q = destFile p"
proof (cases "cellPayload (szUsable p) (byteAt (curBuf pgno p a) (btreePrefix pgno))
                (curBuf pgno p a) pc")
  case (CellCorrupt n)
  then show ?thesis by (simp add: cellFinish_def)
next
  case CellLocal
  then show ?thesis by (simp add: cellFinish_def)
next
  case (CellOverflow off iChild nByte)
  obtain p2 a2 where st: "btreeStorePtr p a pgno off = (p2, a2)" by fastforce
  have f: "rcErr p2 = rcErr p" "destFile p2 = destFile p"
    using StorePtr_fields [of p a pgno off] st by simp_all
  then have "scrubDefragOverflow p2 iChild nByte = Some p2"
    using assms by (simp add: Overflow_err)
  with CellOverflow st f show ?thesis
    by (simp add: cellFinish_def)
qed

lemma btreeCells_err:
  assumes "rcErr p \<noteq> 0"
  shows "\<exists>q b ln. btreeCells p a pgno iDepth szHdr nCell i = Some (q, b, ln)
           \<and> rcErr q = rcErr p \<and> destFile q = destFile p"
  using assms
proof (induction "nCell - i" arbitrary: p a i)
  case 0
  then show ?case by (subst btreeCells.simps) simp
next
  case (Suc k)
  then have lt: "i < nCell" and k: "k = nCell - (i + 1)" by simp_all
  show ?case
  proof (cases "cellEnter (szUsable p) (btreePrefix pgno) szHdr (curBuf pgno p a) i")
    case (EntryCorrupt n)
    with lt show ?thesis by (subst btreeCells.simps) simp
  next
    case (EntryLeaf pc)
    obtain q b ln where cf: "cellFinish p a pgno pc = Some (q, b, ln)"
      and q: "rcErr q = rcErr p" "destFile q = destFile p"
      using cellFinish_err [OF Suc.prems] by blast
    show ?thesis
    proof (cases ln)
      case (Some n)
      with lt EntryLeaf cf q show ?thesis by (subst btreeCells.simps) simp
    next
      case None
      have "rcErr q \<noteq> 0" using q Suc.prems by simp
      from Suc.hyps(1) [OF k this, of b] q None lt EntryLeaf cf show ?thesis
        by (subst btreeCells.simps) simp
    qed
  next
    case (EntryInterior iChild pc)
    let ?st = "btreeStorePtr p a pgno (unat pc)"
    have e1: "rcErr (fst ?st) \<noteq> 0" using Suc.prems by simp
    have ch: "scrubDefragBtree (fst ?st) iChild (iDepth + 1) False = Some (fst ?st)"
      using e1 by (rule Btree_err)
    show ?thesis
    proof (cases "byteAt (curBuf pgno (fst ?st) (snd ?st)) (btreePrefix pgno) = 5")
      case True
      from Suc.hyps(1) [OF k e1, of "snd ?st"] lt EntryInterior ch True show ?thesis
        by (subst btreeCells.simps) simp
    next
      case False
      obtain q b ln where cf: "cellFinish (fst ?st) (snd ?st) pgno (pc + 4) = Some (q, b, ln)"
        and q: "rcErr q = rcErr (fst ?st)" "destFile q = destFile (fst ?st)"
        using cellFinish_err [OF e1] by blast
      show ?thesis
      proof (cases ln)
        case (Some n)
        with lt EntryInterior ch False cf q show ?thesis by (subst btreeCells.simps) simp
      next
        case None
        have "rcErr q \<noteq> 0" using q e1 by simp
        from Suc.hyps(1) [OF k this, of b] q None lt EntryInterior ch False cf show ?thesis
          by (subst btreeCells.simps) simp
      qed
    qed
  qed
qed




lemma relocLoop_append:
  "relocLoop s z (rs1 @ rs2) =
     (case relocLoop s z rs1 of None \<Rightarrow> None | Some (s1, z1) \<Rightarrow> relocLoop s1 z1 rs2)"
  by (induction rs1 arbitrary: s z) (auto split: option.splits)

lemma relocLoop_later:
  "relocLoop s z rs = Some (s', z') \<Longrightarrow>
     laterState s s' \<and> length z' = length z + length rs \<and> take (length z) z' = z"
proof (induction rs arbitrary: s z)
  case Nil
  then show ?case by simp
next
  case (Cons r rs)
  from Cons.prems obtain s1 where
    b: "scrubDefragBtree s (word_of_int (rootpage r)) 0 True = Some s1"
    and l: "relocLoop s1 (z @ [(iDestPageNo s, r)]) rs = Some (s', z')"
    by (auto split: option.splits)
  have l1: "laterState s s1" using b by (rule later_Btree)
  from Cons.IH [OF l] have l2: "laterState s1 s'"
    and len: "length z' = length (z @ [(iDestPageNo s, r)]) + length rs"
    and tk: "take (length (z @ [(iDestPageNo s, r)])) z' = z @ [(iDestPageNo s, r)]"
    by simp_all
  have "take (length z) z' = take (length z) (take (length (z @ [(iDestPageNo s, r)])) z')"
    by (simp add: min_def)
  also have "\<dots> = z" unfolding tk by simp
  finally have "take (length z) z' = z" .
  with l1 l2 len show ?case by (auto intro: laterState_trans)
qed

lemma runState_page1: "scrubDefragBtree runState 1 0 True = Some runState1"
  by code_simp

lemma runState_page2:
  "scrubDefragBtree runState1 (word_of_int (rootpage rootRow)) 0 True = Some runState2"
  by code_simp

lemma runState_loop:
  "relocLoop runState1 [] ([] @ rootRow # []) = Some (runState2, [(2, rootRow)])"
  by code_simp

section \<open>The last page of an overflow chain\<close>

lemma length_memsetZero [simp]: "length (memsetZero a i n) = length a"
  by (auto simp: memsetZero_def min_def)

lemma nth_memsetZero:
  "k < length a \<Longrightarrow> memsetZero a i n ! k = (if i \<le> k \<and> k < i + n then 0 else a ! k)"
  by (auto simp: memsetZero_def nth_append min_def)

lemma byteAt_memsetZero:
  "byteAt (memsetZero a i n) k = (if i \<le> k \<and> k < i + n then 0 else byteAt a k)"
  by (auto simp: byteAt_def nth_memsetZero)

lemma Int32_memsetZero: "off + 4 \<le> i \<Longrightarrow> scrubDefragInt32 (memsetZero a i n) off = scrubDefragInt32 a off"
  by (simp add: scrubDefragInt32_def byteAt_memsetZero)

lemma overflowTail_props:
  assumes U: "4 < U" and len: "unat U \<le> length a" and t: "overflowTail U a nByte = (a1, nByte1)"
  shows "length a1 = length a"
    and "scrubDefragInt32 a1 0 = scrubDefragInt32 a 0"
    and "\<forall>k. 4 + unat nByte \<le> k \<and> k < unat U \<longrightarrow> a1 ! k = 0"
    and "unat nByte1 = unat nByte - (unat U - 4)"
proof -
  have u4: "unat (U - 4) = unat U - 4" using U by (simp add: unat_sub word_le_nat_alt word_less_nat_alt)
  have Ugt: "4 < unat U" using U by (simp add: word_less_nat_alt)
  show "length a1 = length a" using t by (auto simp: overflowTail_def split: if_splits)
  show "scrubDefragInt32 a1 0 = scrubDefragInt32 a 0"
  proof (cases "U - 4 \<le> nByte")
    case True
    with t show ?thesis by (simp add: overflowTail_def)
  next
    case False
    then have lt: "unat nByte < unat U - 4" using u4 by (simp add: word_le_nat_alt)
    have x: "unat (U - 4 - nByte) = unat U - 4 - unat nByte"
      using False u4 by (simp add: unat_sub word_le_nat_alt)
    have "unat (U - (U - 4 - nByte)) = unat U - (unat U - 4 - unat nByte)"
      using x Ugt by (subst unat_sub) (simp_all add: word_le_nat_alt)
    then have i: "unat (U - (U - 4 - nByte)) = 4 + unat nByte" using lt Ugt by simp
    from t False have "a1 = memsetZero a (unat (U - (U - 4 - nByte))) (unat (U - 4 - nByte))"
      by (auto simp only: overflowTail_def split: if_splits)
    then have "a1 = memsetZero a (4 + unat nByte) (unat (U - 4 - nByte))"
      by (simp only: i)
    then show ?thesis by (simp add: Int32_memsetZero)
  qed
  show "\<forall>k. 4 + unat nByte \<le> k \<and> k < unat U \<longrightarrow> a1 ! k = 0"
  proof (cases "U - 4 \<le> nByte")
    case True
    then have "unat U - 4 \<le> unat nByte" using u4 by (simp add: word_le_nat_alt)
    then show ?thesis by auto
  next
    case False
    then have lt: "unat nByte < unat U - 4" using u4 by (simp add: word_le_nat_alt)
    have x: "unat (U - 4 - nByte) = unat U - 4 - unat nByte"
      using False u4 by (simp add: unat_sub word_le_nat_alt)
    have "unat (U - (U - 4 - nByte)) = unat U - (unat U - 4 - unat nByte)"
      using x Ugt by (subst unat_sub) (simp_all add: word_le_nat_alt)
    then have i: "unat (U - (U - 4 - nByte)) = 4 + unat nByte" using lt Ugt by simp
    from t False have "a1 = memsetZero a (unat (U - (U - 4 - nByte))) (unat (U - 4 - nByte))"
      by (auto simp only: overflowTail_def split: if_splits)
    then have "a1 = memsetZero a (4 + unat nByte) (unat U - 4 - unat nByte)"
      by (simp only: i x)
    then show ?thesis using len lt by (auto simp: nth_memsetZero)
  qed
  show "unat nByte1 = unat nByte - (unat U - 4)"
  proof (cases "U - 4 \<le> nByte")
    case True
    with t have "nByte1 = nByte - (U - 4)" by (simp add: overflowTail_def)
    then show ?thesis using True u4 by (simp add: unat_sub)
  next
    case False
    then have lt: "unat nByte < unat U - 4" using u4 by (simp add: word_le_nat_alt)
    from t False have "nByte1 = 0" by (simp add: overflowTail_def)
    then show ?thesis using lt by simp
  qed
qed

lemma overflowLink_props:
  assumes "overflowLink p a = (pL, a2)" and "4 \<le> length a"
  shows "length a2 = length a" and "\<forall>k\<ge>4. a2 ! k = a ! k"
    and "destFile pL = destFile p" and "rcErr pL = rcErr p"
    and "scrubDefragInt32 a2 0 = (if scrubDefragInt32 a 0 = 0 then 0 else iDestPageNo pL)"
  using assms
  by (auto simp: overflowLink_def nth_WriteInt32_other Int32_WriteInt32_same
      scrubDefragIncDestPageNo_def Let_def split: if_splits)

lemma Write_fields [simp]:
  "iDestPageNo (scrubDefragWrite p pgno d) = iDestPageNo p"
  by (simp add: scrubDefragWrite_def scrubDefragErr_def Let_def)

lemma Read_buf_ok:
  assumes "scrubDefragRead p pgno True = (p1, Some a)"
  shows "p1 = p" and "map_of (srcFile p) pgno = Some a" and "length a = unat (szPage p)"
  using assms
  by (auto simp: scrubDefragRead_def xRead_def split: if_splits option.splits)

lemma overflowTail_nth:
  assumes U: "4 < U" and len: "unat U \<le> length a" and t: "overflowTail U a nByte = (a1, nByte1)"
  shows "\<forall>k. k < length a \<and> \<not> (4 + unat nByte \<le> k \<and> k < unat U) \<longrightarrow> a1 ! k = a ! k"
proof (cases "U - 4 \<le> nByte")
  case True
  with t show ?thesis by (simp add: overflowTail_def)
next
  case False
  have u4: "unat (U - 4) = unat U - 4" using U by (simp add: unat_sub word_le_nat_alt word_less_nat_alt)
  have Ugt: "4 < unat U" using U by (simp add: word_less_nat_alt)
  from False have lt: "unat nByte < unat U - 4" using u4 by (simp add: word_le_nat_alt)
  have x: "unat (U - 4 - nByte) = unat U - 4 - unat nByte"
    using False u4 by (simp add: unat_sub word_le_nat_alt)
  have "unat (U - (U - 4 - nByte)) = unat U - (unat U - 4 - unat nByte)"
    using x Ugt by (subst unat_sub) (simp_all add: word_le_nat_alt)
  then have i: "unat (U - (U - 4 - nByte)) = 4 + unat nByte" using lt Ugt by simp
  from t False have "a1 = memsetZero a (unat (U - (U - 4 - nByte))) (unat (U - 4 - nByte))"
    by (auto simp only: overflowTail_def split: if_splits)
  then have "a1 = memsetZero a (4 + unat nByte) (unat U - 4 - unat nByte)"
    by (simp only: i x)
  then show ?thesis using len lt by (auto simp: nth_memsetZero)
qed

lemma overflowLink_alloc:
  assumes "overflowLink p a = (pL, a2)"
  shows "iLock pL = iLock p"
    and "iDestPageNo pL = allocSeq p (if scrubDefragInt32 a 0 = 0 then 0 else 1)"
  using assms by (auto simp: overflowLink_def allocSeq_def split: if_splits)

lemma iLock_Write [simp]: "iLock (scrubDefragWrite p pgno d) = iLock p"
  by (simp add: scrubDefragWrite_def scrubDefragErr_def Let_def)

lemma map_allocSeq_Suc:
  "allocSeq p 0 # map (\<lambda>j. allocSeq p (Suc j)) [0 ..< m] = map (allocSeq p) [0 ..< Suc m]"
  by (simp only: map_Suc_upt [symmetric] upt_conv_Cons [OF zero_less_Suc] list.map map_map o_def)

lemma overflowLoop_last_aux:
  assumes "overflowLoop p pgno nByte = Some q"
  shows "(nByte = 0 \<or> pgno = 0 \<longrightarrow> q = p)
         \<and> (overflowLoop p pgno nByte = Some q \<and> rcErr q = 0 \<and> 4 < szUsable p
                \<and> szUsable p \<le> szPage p \<longrightarrow>
              nByte = 0 \<or> pgno = 0 \<or> lastPageOk p pgno nByte q)"
proof (rule overflowLoop.raw_induct
    [where P = "\<lambda>p pgno nByte q. (nByte = 0 \<or> pgno = 0 \<longrightarrow> q = p)
         \<and> (overflowLoop p pgno nByte = Some q \<and> rcErr q = 0 \<and> 4 < szUsable p
                \<and> szUsable p \<le> szPage p \<longrightarrow>
              nByte = 0 \<or> pgno = 0 \<or> lastPageOk p pgno nByte q)", OF _ assms], goal_cases)
  case (1 f p pgno nByte q)
  show ?case
  proof (cases "0 < nByte \<and> pgno \<noteq> 0")
    case False
    then have "q = p" using 1(2) by auto
    moreover have "nByte = 0 \<or> pgno = 0" using False by (auto simp: word_gt_0)
    ultimately show ?thesis by blast
  next
    case True
    then have nz: "\<not> (nByte = 0 \<or> pgno = 0)" by (auto simp: word_gt_0)
    obtain p1 r where rd: "scrubDefragRead p pgno True = (p1, r)" by fastforce
    show ?thesis
    proof (cases r)
      case None
      then have "q = p1" using 1(2) True rd by simp
      moreover have "rcErr p1 \<noteq> 0" using rd None by (auto dest: Read_fail)
      ultimately show ?thesis using nz by simp
    next
      case (Some a)
      note rb = Read_buf_ok [OF rd [unfolded Some]]
      obtain a1 nByte1 where tl: "overflowTail (szUsable p) a nByte = (a1, nByte1)" by fastforce
      obtain pL a2 where lk: "overflowLink p a1 = (pL, a2)" by fastforce
      let ?p2 = "scrubDefragWrite pL (iDestPageNo p) a2"
      let ?pgno1 = "scrubDefragInt32 a1 0"
      have op: "overflowPage p a nByte = (?p2, ?pgno1, nByte1)"
        by (simp add: overflowPage_def tl lk)
      have rec: "f ?p2 ?pgno1 nByte1 = Some q"
        using 1(2) True rd Some rb(1) op by simp
      note IH = 1(1) [OF rec]
      have l2: "laterState p ?p2"
        using later_overflowPage [of p a nByte] op by simp
      have main: "lastPageOk p pgno nByte q"
        if real: "overflowLoop p pgno nByte = Some q"
          and ok: "rcErr q = 0" and U: "4 < szUsable p" and UP: "szUsable p \<le> szPage p"
      proof -
        have real2: "overflowLoop ?p2 ?pgno1 nByte1 = Some q"
          using real True rd Some rb(1) op by (subst (asm) overflowLoop.simps) simp
        have l3: "laterState ?p2 q" using real2 by (rule later_overflowLoop)
        have Ugt: "4 < unat (szUsable p)" using U by (simp add: word_less_nat_alt)
        have len: "unat (szUsable p) \<le> length a"
          using UP rb(3) by (simp add: word_le_nat_alt)
        note tp = overflowTail_props [OF U len tl]
        note tn = overflowTail_nth [OF U len tl]
        have len1: "4 \<le> length a1" using tp(1) len Ugt by simp
        note lp = overflowLink_props [OF lk len1]
        note la = overflowLink_alloc [OF lk]
        have fields: "szUsable ?p2 = szUsable p" "szPage ?p2 = szPage p" "srcFile ?p2 = srcFile p"
          using l2 by (simp_all add: laterState_def)
        have ok2: "rcErr ?p2 = 0"
          using l3 ok by (auto simp: laterState_def)
        from Write_ok [OF ok2] lp(3)
        have w: "destFile ?p2 = destFile p @ [(iDestPageNo p, a2)]" by simp
        have z2: "\<forall>k. 4 + unat nByte \<le> k \<and> k < unat (szUsable p) \<longrightarrow> a2 ! k = 0"
          using tp(3) lp(2) by auto
        have c2: "\<forall>k. 4 \<le> k \<and> k < length a2
                    \<and> \<not> (4 + unat nByte \<le> k \<and> k < unat (szUsable p)) \<longrightarrow> a2 ! k = a ! k"
          using tn lp(1,2) tp(1) by auto
        have nx: "scrubDefragInt32 a2 0 = (if scrubDefragInt32 a 0 = 0 then 0 else iDestPageNo ?p2)"
          using lp(5) tp(2) by simp
        have al2: "iDestPageNo ?p2 = allocSeq p (if scrubDefragInt32 a 0 = 0 then 0 else 1)"
          using la(2) tp(2) by simp
        have lk2: "iLock ?p2 = iLock p" using la(1) by simp
        show ?thesis
        proof (cases "nByte1 = 0 \<or> ?pgno1 = 0")
          case True
          then have q: "q = ?p2" using IH by blast
          show ?thesis
            unfolding lastPageOk_def
            apply (rule exI [of _ "[]"], rule exI [of _ "iDestPageNo p"], rule exI [of _ a2],
                rule exI [of _ a])
            using q w z2 c2 nx al2 rb lp(1) tp(1) by (simp add: allocSeq_0)
        next
          case False
          then have "lastPageOk ?p2 ?pgno1 nByte1 q"
            using IH real2 ok U UP fields by auto
          then obtain pre pg d src where
            d: "destFile q = destFile ?p2 @ pre @ [(pg, d)]"
            and nums: "map fst pre = map (allocSeq ?p2) [0 ..< length pre]"
            and pg: "pg = allocSeq ?p2 (length pre)"
            and sr: "map_of (srcFile p) (srcChain (srcFile p) ?pgno1 (length pre)) = Some src"
            and ls: "length src = unat (szPage p)"
            and ld: "length d = unat (szPage p)"
            and z: "\<forall>k. 4 + (unat nByte1 - length pre * (unat (szUsable p) - 4)) \<le> k
                 \<and> k < unat (szUsable p) \<longrightarrow> d ! k = 0"
            and c: "\<forall>k. 4 \<le> k \<and> k < length d
                 \<and> \<not> (4 + (unat nByte1 - length pre * (unat (szUsable p) - 4)) \<le> k
                        \<and> k < unat (szUsable p)) \<longrightarrow> d ! k = src ! k"
            and n: "scrubDefragInt32 d 0 = (if scrubDefragInt32 src 0 = 0 then 0 else iDestPageNo q)"
            and fin: "iDestPageNo q
                = allocSeq ?p2 (length pre + (if scrubDefragInt32 src 0 = 0 then 0 else 1))"
            unfolding lastPageOk_def fields by blast
          have a0: "scrubDefragInt32 a 0 \<noteq> 0" using False tp(2) by simp
          then have st: "iDestPageNo ?p2 = allocSeq p 1" using al2 by simp
          have sh: "allocSeq ?p2 j = allocSeq p (Suc j)" for j
            using allocSeq_shift [OF st lk2, of j] by simp
          have ar: "unat nByte1 - length pre * (unat (szUsable p) - 4)
                    = unat nByte - length ((iDestPageNo p, a2) # pre) * (unat (szUsable p) - 4)"
            using tp(4) by simp
          have ch: "srcChain (srcFile p) ?pgno1 (length pre)
                    = srcChain (srcFile p) pgno (length ((iDestPageNo p, a2) # pre))"
            using rb(2) tp(2) by simp
          have nums': "map fst ((iDestPageNo p, a2) # pre)
                       = map (allocSeq p) [0 ..< length ((iDestPageNo p, a2) # pre)]"
          proof -
            have "map fst pre = map (\<lambda>j. allocSeq p (Suc j)) [0 ..< length pre]"
              using nums by (simp add: sh)
            then have "map fst ((iDestPageNo p, a2) # pre)
                       = allocSeq p 0 # map (\<lambda>j. allocSeq p (Suc j)) [0 ..< length pre]"
              by (simp add: allocSeq_0)
            then show ?thesis by (simp only: map_allocSeq_Suc length_Cons)
          qed
          have pg': "pg = allocSeq p (length ((iDestPageNo p, a2) # pre))"
            using pg by (simp add: sh)
          have fin': "iDestPageNo q = allocSeq p (length ((iDestPageNo p, a2) # pre)
                         + (if scrubDefragInt32 src 0 = 0 then 0 else 1))"
            using fin by (simp add: sh)
          show ?thesis
            unfolding lastPageOk_def
            apply (rule exI [of _ "(iDestPageNo p, a2) # pre"], rule exI [of _ pg],
                rule exI [of _ d], rule exI [of _ src])
            using d w ld ls z c n nums' pg' fin' sr unfolding ar ch by simp
        qed
      qed
      show ?thesis using nz main by blast
    qed
  qed
qed


lemma chain_run: "scrubDefragOverflow chainState 5 100 = Some chainState'"
  by code_simp



section \<open>The gap of a B-tree page\<close>

lemma unat_u8_lt: "unat (b :: u8) < 256"
  using unsigned_less [of b, where 'a = nat] by simp

lemma unat_ucast_u8: "unat (ucast (b :: u8) :: u32) = unat b"
  by (simp add: unsigned_ucast_eq take_bit_nat_eq_self unat_u8_lt [THEN less_trans])

lemma unat_Int16: "unat (scrubDefragInt16 a off) = unat (byteAt a off) * 256 + unat (byteAt a (off + 1))"
  unfolding scrubDefragInt16_def push_bit_eq_mult
  using unat_u8_lt [of "byteAt a off"] unat_u8_lt [of "byteAt a (off + 1)"]
  by (simp add: unat_word_ariths unat_ucast_u8)

lemma Int16_le: "unat (scrubDefragInt16 a off) \<le> 65535"
  unfolding unat_Int16
  using unat_u8_lt [of "byteAt a off"] unat_u8_lt [of "byteAt a (off + 1)"] by simp

lemma unat_HdrSize: "unat (btreeHdrSize a n) = (if isInterior a n then 12 else 8)"
  by (auto simp: btreeHdrSize_def isInterior_def)

lemma btreePrefix_le: "btreePrefix pgno \<le> 100"
  by (simp add: btreePrefix_def)

lemma unat_gap_y:
  assumes "nPrefix \<le> 100"
  shows "unat (btreeHdrSize a nPrefix + of_nat nPrefix + btreeCellCount a nPrefix * 2) = gapStart a nPrefix"
proof -
  have c: "unat (btreeCellCount a nPrefix) \<le> 65535" by (simp add: btreeCellCount_def Int16_le)
  have h: "unat (btreeHdrSize a nPrefix) \<le> 12" by (simp add: unat_HdrSize)
  have n: "unat (of_nat nPrefix :: u32) = nPrefix" using assms by (simp add: of_nat_inverse)
  have c2: "unat (btreeCellCount a nPrefix * 2) = unat (btreeCellCount a nPrefix) * 2"
    using c by (simp add: unat_word_ariths)
  have hn: "unat (btreeHdrSize a nPrefix + of_nat nPrefix) = unat (btreeHdrSize a nPrefix) + nPrefix"
    using h n assms by (simp add: unat_word_ariths)
  show ?thesis
    unfolding gapStart_def using c c2 hn h assms by (simp add: unat_word_ariths)
qed

lemma btreeZeroGap_result:
  assumes "btreeZeroGap U nPrefix a = Inr g" and "nPrefix \<le> 100"
  shows "g = memsetZero a (gapStart a nPrefix)
               (unat (scrubDefragInt16 a (nPrefix + 5)) - gapStart a nPrefix)"
    and "gapStart a nPrefix \<le> unat (scrubDefragInt16 a (nPrefix + 5))"
    and "scrubDefragInt16 a (nPrefix + 5) \<le> U"
proof -
  let ?x = "scrubDefragInt16 a (nPrefix + 5)"
  let ?y = "btreeHdrSize a nPrefix + of_nat nPrefix + btreeCellCount a nPrefix * 2"
  note y = unat_gap_y [OF assms(2), of a]
  from assms(1) have le: "?y \<le> ?x" and xU: "?x \<le> U"
    by (auto simp: btreeZeroGap_def Let_def split: if_splits)
  then show "gapStart a nPrefix \<le> unat ?x" using y by (simp add: word_le_nat_alt)
  show "?x \<le> U" by (rule xU)
  have d: "unat (?x - ?y) = unat ?x - gapStart a nPrefix"
    using le y by (simp add: unat_sub)
  show "g = memsetZero a (gapStart a nPrefix) (unat ?x - gapStart a nPrefix)"
  proof (cases "?y < ?x")
    case True
    with assms(1) have "g = memsetZero a (unat ?y) (unat (?x - ?y))"
      by (auto simp: btreeZeroGap_def Let_def split: if_splits)
    then show ?thesis by (simp only: d y)
  next
    case False
    with le have "unat ?x - gapStart a nPrefix = 0" using y by (simp add: word_less_nat_alt)
    moreover from assms(1) False have "g = a"
      by (auto simp: btreeZeroGap_def Let_def split: if_splits)
    ultimately show ?thesis by (simp add: memsetZero_def)
  qed
qed

lemma freeBlockZero_keeps_zero:
  "length (freeBlockZero a pc) = length a
   \<and> (\<forall>k < length a. a ! k = 0 \<longrightarrow> freeBlockZero a pc ! k = 0)"
  by (simp add: freeBlockZero_def Let_def nth_memsetZero)

lemma freeBlockLoop_keeps_zero:
  "freeBlockLoop U a pc = (b, ln) \<Longrightarrow>
     length b = length a \<and> (\<forall>k < length a. a ! k = 0 \<longrightarrow> b ! k = 0)"
proof (induction U a pc arbitrary: b ln rule: freeBlockLoop.induct)
  case (1 U a pc)
  note z = freeBlockZero_keeps_zero [of a pc]
  show ?case
  proof (cases "pc \<noteq> 0 \<and> \<not> pc > U - 4 \<and> \<not> pc + scrubDefragInt16 a (unat pc + 2) > U
              \<and> \<not> (scrubDefragInt16 (freeBlockZero a pc) (unat pc) < pc + 4
                     \<and> scrubDefragInt16 (freeBlockZero a pc) (unat pc) > 0)")
    case True
    then have rec: "freeBlockLoop U (freeBlockZero a pc)
                      (scrubDefragInt16 (freeBlockZero a pc) (unat pc)) = (b, ln)"
      using "1.prems" by (subst (asm) freeBlockLoop.simps) (auto split: if_splits)
    from "1.IH" [OF _ _ _ _ rec] True z show ?thesis by auto
  next
    case False
    then have "b = a \<or> b = freeBlockZero a pc"
      using "1.prems" by (subst (asm) freeBlockLoop.simps) (auto split: if_splits)
    then show ?thesis using z by auto
  qed
qed

text \<open>
  Claim C4, as amended. When the header phase of a page (lines 405 to 422) passes the
  two checks of the gap, the \<open>memset\<close> of line 409 has set to zero exactly the bytes
  from \<open>nPrefix + szHdr + 2 * nCell\<close> up to the cell content offset, which the code
  takes from the page header as an offset from the start of the buffer, on page 1 too
  (the result \<open>g\<close>); every other byte is as it was. The walk over the free blocks
  that follows leaves these bytes zero in the buffer \<open>b\<close> that goes on to the cell
  walk and to the write.
\<close>

theorem gap_zeroed:
  assumes "btreeHeader U (btreePrefix pgno) a = (b, ln)" and "ln \<noteq> Some 406" and "ln \<noteq> Some 408"
  shows "\<exists>g. btreeZeroGap U (btreePrefix pgno) a = Inr g
           \<and> length g = length a \<and> length b = length a
           \<and> (\<forall>k < length a.
                 g ! k = (if gapStart a (btreePrefix pgno) \<le> k
                             \<and> k < unat (scrubDefragInt16 a (btreePrefix pgno + 5))
                          then 0 else a ! k))
           \<and> (\<forall>k < length a.
                 gapStart a (btreePrefix pgno) \<le> k
                   \<and> k < unat (scrubDefragInt16 a (btreePrefix pgno + 5)) \<longrightarrow> b ! k = 0)"
proof (cases "btreeZeroGap U (btreePrefix pgno) a")
  case (Inl n)
  then have "n = 406 \<or> n = 408"
    by (auto simp: btreeZeroGap_def Let_def split: if_splits)
  moreover from Inl assms(1) have "ln = Some n" by (simp add: btreeHeader_def)
  ultimately show ?thesis using assms(2,3) by auto
next
  case (Inr g)
  note r = btreeZeroGap_result [OF Inr btreePrefix_le]
  have g: "\<forall>k < length a.
             g ! k = (if gapStart a (btreePrefix pgno) \<le> k
                         \<and> k < unat (scrubDefragInt16 a (btreePrefix pgno + 5))
                      then 0 else a ! k)"
    using r(2) by (auto simp: r(1) nth_memsetZero)
  have lg: "length g = length a" by (simp add: r(1))
  have "b = g \<or> (\<exists>pc. freeBlockLoop U g pc = (b, ln))"
    using assms(1) Inr by (auto simp: btreeHeader_def split: if_splits)
  then have b: "length b = length g \<and> (\<forall>k < length g. g ! k = 0 \<longrightarrow> b ! k = 0)"
    using freeBlockLoop_keeps_zero by blast
  show ?thesis using Inr g lg b by auto
qed

lemma gap_run: "scrubDefragBtree gapState 1 0 True = Some gapState'"
  by code_simp

lemma gap_header: "btreeHeader 512 (btreePrefix 1) gapPage = (gapPage', None)"
  by code_simp

lemma gap_bounds:
  "gapStart gapPage (btreePrefix 1) = 110"
  "unat (scrubDefragInt16 gapPage (btreePrefix 1 + 5)) = 500"
  "length gapPage = 512"
  by code_simp+

text \<open>
  Claim C4 as stated fails on page 1. For \<open>gapState\<close> the claimed range runs from
  110 to \<open>nPrefix + cellStart = 600\<close>, so it holds the cell at offset 500; the page
  written to the destination has the first byte of the cell, 3, at offset 500.
\<close>

theorem gap_range_counterexample:
  "scrubDefragBtree gapState 1 0 True = Some gapState'
   \<and> destFile gapState' = [(1, gapPage')]
   \<and> btreePrefix 1 + unat (btreeHdrSize gapPage (btreePrefix 1))
         + 2 * unat (btreeCellCount gapPage (btreePrefix 1)) = 110
   \<and> btreePrefix 1 + unat (scrubDefragInt16 gapPage (btreePrefix 1 + 5)) = 600
   \<and> gapPage' ! 500 = 3"
  using gap_run gap_bounds
  by (simp add: gapState'_def gapState_def gapStart_def gapPage'_def btreePrefix_def nth_append)

theorem gap_zeroed_witness:
  "btreeHeader 512 (btreePrefix 1) gapPage = (gapPage', None)
   \<and> (None :: nat option) \<noteq> Some 406 \<and> (None :: nat option) \<noteq> Some 408
   \<and> gapStart gapPage (btreePrefix 1) = 110
   \<and> unat (scrubDefragInt16 gapPage (btreePrefix 1 + 5)) = 500
   \<and> gapPage ! 110 = 0xAA \<and> gapPage' ! 110 = 0 \<and> gapPage' ! 499 = 0"
proof -
  from gap_zeroed [OF gap_header] have
    "\<forall>k < length gapPage. gapStart gapPage (btreePrefix 1) \<le> k
        \<and> k < unat (scrubDefragInt16 gapPage (btreePrefix 1 + 5)) \<longrightarrow> gapPage' ! k = 0"
    by auto
  then have "gapPage' ! 110 = 0" "gapPage' ! 499 = 0"
    unfolding gap_bounds by simp_all
  moreover have "gapPage ! 110 = 0xAA" by (simp add: gapPage_def nth_append)
  ultimately show ?thesis using gap_header gap_bounds by simp
qed

section \<open>The overflow decision of a cell\<close>

lemma uint_sub_const:
  fixes w c :: u32
  assumes "uint c \<le> uint w"
  shows "uint (w - c) = uint w - uint c"
  using assms by (simp add: uint_sub_lem [THEN iffD1])

lemma cell_thresholds:
  fixes U :: u32
  assumes lo: "196 \<le> uint U" and hi: "uint U \<le> 65536"
  shows "uint (cellX kind U) = (if kind = 0x0d then uint U - 35 else (uint U - 12) * 64 div 255 - 23)"
    and "uint (cellM U) = (uint U - 12) * 32 div 255 - 23"
    and "uint (U - 4) = uint U - 4"
    and "uint (cellM U) \<le> uint (cellX kind U)"
    and "0 \<le> uint (cellM U)" and "uint (cellX kind U) < 65536"
proof -
  have u12: "uint (U - 12) = uint U - 12" using lo by (simp add: uint_sub_const)
  have u35: "uint (U - 35) = uint U - 35" using lo by (simp add: uint_sub_const)
  show u4: "uint (U - 4) = uint U - 4" using lo by (simp add: uint_sub_const)
  have "uint (U - 12) * uint (64 :: u32) < 2 ^ LENGTH(32)"
    unfolding u12 using lo hi by simp
  then have "uint ((U - 12) * 64) = uint (U - 12) * uint (64 :: u32)"
    by (rule uint_mult_lem [THEN iffD1])
  then have m64: "uint ((U - 12) * 64) = (uint U - 12) * 64"
    unfolding u12 by simp
  have "uint (U - 12) * uint (32 :: u32) < 2 ^ LENGTH(32)"
    unfolding u12 using lo hi by simp
  then have "uint ((U - 12) * 32) = uint (U - 12) * uint (32 :: u32)"
    by (rule uint_mult_lem [THEN iffD1])
  then have m32: "uint ((U - 12) * 32) = (uint U - 12) * 32"
    unfolding u12 by simp
  have d64: "uint ((U - 12) * 64 div 255) = (uint U - 12) * 64 div 255"
    unfolding uint_div m64 by simp
  have d32: "uint ((U - 12) * 32 div 255) = (uint U - 12) * 32 div 255"
    unfolding uint_div m32 by simp
  have g64: "46 \<le> (uint U - 12) * 64 div 255" using lo by simp
  have g32: "23 \<le> (uint U - 12) * 32 div 255" using lo by simp
  have "uint (23 :: u32) \<le> uint ((U - 12) * 64 div 255)" unfolding d64 using g64 by simp
  then have "uint ((U - 12) * 64 div 255 - 23) = uint ((U - 12) * 64 div 255) - uint (23 :: u32)"
    by (rule uint_sub_const)
  then have x: "uint ((U - 12) * 64 div 255 - 23) = (uint U - 12) * 64 div 255 - 23"
    unfolding d64 by simp
  have "uint (23 :: u32) \<le> uint ((U - 12) * 32 div 255)" unfolding d32 using g32 by simp
  then have "uint ((U - 12) * 32 div 255 - 23) = uint ((U - 12) * 32 div 255) - uint (23 :: u32)"
    by (rule uint_sub_const)
  then show M: "uint (cellM U) = (uint U - 12) * 32 div 255 - 23"
    unfolding cellM_def d32 by simp
  have X1: "cellX kind U = U - 35" if "kind = 0x0d" using that by (simp add: cellX_def)
  have X2: "cellX kind U = (U - 12) * 64 div 255 - 23" if "kind \<noteq> 0x0d"
    using that unfolding cellX_def by (simp only: if_False)
  show X: "uint (cellX kind U) = (if kind = 0x0d then uint U - 35 else (uint U - 12) * 64 div 255 - 23)"
  proof (cases "kind = 0x0d")
    case True
    from X1 [OF True] have "uint (cellX kind U) = uint U - 35" by (simp only: u35)
    with True show ?thesis by simp
  next
    case False
    from X2 [OF False] have "uint (cellX kind U) = (uint U - 12) * 64 div 255 - 23"
      by (simp only: x)
    with False show ?thesis by simp
  qed
  have mono: "(uint U - 12) * 32 div 255 \<le> (uint U - 12) * 64 div 255"
    using lo by (intro zdiv_mono1) simp_all
  have small: "(uint U - 12) * 32 div 255 \<le> uint U - 12"
    using lo by simp
  show "uint (cellM U) \<le> uint (cellX kind U)"
    unfolding M X using mono small by simp
  show "0 \<le> uint (cellM U)" by simp
  have "(uint U - 12) * 64 div 255 \<le> uint U - 12" using lo by simp
  then show "uint (cellX kind U) < 65536" unfolding X using hi by simp
qed

lemma cellK_value:
  fixes U :: u32
  assumes lo: "196 \<le> uint U" and hi: "uint U \<le> 65536"
    and big: "uint (cellX kind U) < sint P"
  shows "uint (cellK U P) = uint (cellM U) + (sint P - uint (cellM U)) mod (uint U - 4)"
    and "uint (cellK U P) < 131072"
proof -
  note t = cell_thresholds(1-3) [OF lo hi] cell_thresholds(4) [OF lo hi, of kind]
    cell_thresholds(5) [OF lo hi] cell_thresholds(6) [OF lo hi, of kind]
  have pos: "0 < sint P - uint (cellM U)" using big t(4) by simp
  have d: "0 < uint U - 4" using lo by simp
  have sm: "(sint P - uint (cellM U)) smod (uint U - 4) = (sint P - uint (cellM U)) mod (uint U - 4)"
    using pos d by (simp add: smod_int_alt_def sgn_if)
  have r: "0 \<le> (sint P - uint (cellM U)) mod (uint U - 4)"
    "(sint P - uint (cellM U)) mod (uint U - 4) < uint U - 4"
    using d by simp_all
  have Mle: "uint (cellM U) < 65536" using t(4,6) by simp
  have rng: "0 \<le> uint (cellM U) + (sint P - uint (cellM U)) mod (uint U - 4)"
    "uint (cellM U) + (sint P - uint (cellM U)) mod (uint U - 4) < 131072"
    using r Mle hi by simp_all
  have "uint (cellK U P) = (uint (cellM U) + (sint P - uint (cellM U)) mod (uint U - 4)) mod 2 ^ 32"
    unfolding cellK_def t(3) sm uint_word_of_int_eq take_bit_eq_mod by simp
  also have "\<dots> = uint (cellM U) + (sint P - uint (cellM U)) mod (uint U - 4)"
    using rng by simp
  finally show "uint (cellK U P) = uint (cellM U) + (sint P - uint (cellM U)) mod (uint U - 4)" .
  then show "uint (cellK U P) < 131072" using rng by simp
qed

lemma cellPayload_cases:
  "cellPayload U kind a pc0 =
     (let P = fst (scrubDefragVarint (drop (unat pc0) a));
          pc = pc0 + of_nat (snd (scrubDefragVarint (drop (unat pc0) a)));
          pc1 = (if kind = 0x0d then pc + of_nat (scrubDefragVarintSize (drop (unat pc) a)) else pc)
      in if pc \<ge> U then CellCorrupt 442
         else if sint P \<le> uint (cellX kind U) then CellLocal
         else if kind = 0x0d \<and> pc1 > U - 4 then CellCorrupt 456
         else if pc1 + cellNLocal kind U P > U - 4 then CellCorrupt 459
         else CellOverflow (unat (pc1 + cellNLocal kind U P))
                (scrubDefragInt32 a (unat (pc1 + cellNLocal kind U P)))
                (word_of_int (sint P - uint (cellNLocal kind U P))))"
  by (simp add: cellPayload_def Let_def)

lemma cellNLocal_le:
  fixes U :: u32
  assumes "196 \<le> uint U" and "uint U \<le> 65536"
  shows "uint (cellNLocal kind U P) \<le> uint (cellX kind U)"
  using cell_thresholds(4) [OF assms, of kind]
  by (simp add: cellNLocal_def word_le_def)



lemma bigCell_payload: "cellPayload 512 0x0d bigCellPage 400 = CellOverflow 442 7 961"
  by code_simp


section \<open>The order of the relocated roots\<close>

lemma rootQuery_key:
  "map (\<lambda>r. (typeRank (type r), rootpage r)) (rootQuery rows)
     = map (\<lambda>r. (typeRank (mType r), coalesce0 (mRootpage r)))
         (sort_key (\<lambda>r. (typeRank (mType r), coalesce0 (mRootpage r)))
            (filter (\<lambda>r. coalesce0 (mRootpage r) > 0) rows))"
  by (simp add: rootQuery_def toCatalogRow_def comp_def)

lemma rootQuery_sorted:
  "sorted (map (\<lambda>r. (typeRank (type r), rootpage r)) (rootQuery rows))"
  unfolding rootQuery_key by (rule sorted_sort_key)

text \<open>
  Claim C6, as amended. The rows with a root page above 0, and only these, are relocated,
  each once, ordered by the rank of their type, 0 for other kinds, 1 for indexes and 2
  for tables, and by ascending root page within a rank: other kinds first, then indexes,
  then tables.
\<close>

theorem relocation_order:
  "mset (rootQuery rows)
     = mset (map toCatalogRow (filter (\<lambda>r. coalesce0 (mRootpage r) > 0) rows))
   \<and> (\<forall>i j. i < j \<and> j < length (rootQuery rows) \<longrightarrow>
         typeRank (type (rootQuery rows ! i)) < typeRank (type (rootQuery rows ! j))
         \<or> (typeRank (type (rootQuery rows ! i)) = typeRank (type (rootQuery rows ! j))
            \<and> rootpage (rootQuery rows ! i) \<le> rootpage (rootQuery rows ! j)))"
proof -
  have m: "mset (rootQuery rows)
     = mset (map toCatalogRow (filter (\<lambda>r. coalesce0 (mRootpage r) > 0) rows))"
    by (simp add: rootQuery_def)
  have o: "typeRank (type (rootQuery rows ! i)) < typeRank (type (rootQuery rows ! j))
         \<or> (typeRank (type (rootQuery rows ! i)) = typeRank (type (rootQuery rows ! j))
            \<and> rootpage (rootQuery rows ! i) \<le> rootpage (rootQuery rows ! j))"
    if "i < j" "j < length (rootQuery rows)" for i j
  proof -
    let ?k = "\<lambda>r. (typeRank (type r), rootpage r)"
    have "map ?k (rootQuery rows) ! i \<le> map ?k (rootQuery rows) ! j"
      using rootQuery_sorted [of rows] that by (simp add: sorted_iff_nth_mono)
    then have "?k (rootQuery rows ! i) \<le> ?k (rootQuery rows ! j)" using that by simp
    then show ?thesis by (auto simp: less_eq_prod_def)
  qed
  show ?thesis using m o by blast
qed

lemma exampleCatalog_query:
  "rootQuery exampleCatalog =
     [\<lparr>rootpage = 4, name = ''x'', type = ''other''\<rparr>,
      \<lparr>rootpage = 3, name = ''i'', type = ''index''\<rparr>,
      \<lparr>rootpage = 2, name = ''t'', type = ''table''\<rparr>]"
  by code_simp

theorem relocation_order_witness:
  "(0 :: nat) < 1 \<and> 1 < length (rootQuery exampleCatalog)
   \<and> typeRank (type (rootQuery exampleCatalog ! 0)) = 0
   \<and> typeRank (type (rootQuery exampleCatalog ! 1)) = 1
   \<and> (typeRank (type (rootQuery exampleCatalog ! 0)) < typeRank (type (rootQuery exampleCatalog ! 1))
      \<or> (typeRank (type (rootQuery exampleCatalog ! 0)) = typeRank (type (rootQuery exampleCatalog ! 1))
         \<and> rootpage (rootQuery exampleCatalog ! 0) \<le> rootpage (rootQuery exampleCatalog ! 1)))"
proof -
  have l: "(0 :: nat) < 1" "1 < length (rootQuery exampleCatalog)"
    by (simp_all add: exampleCatalog_query)
  have r: "typeRank (type (rootQuery exampleCatalog ! 0)) = 0"
    "typeRank (type (rootQuery exampleCatalog ! 1)) = 1"
    by (simp_all add: exampleCatalog_query typeRank_def)
  from relocation_order [of exampleCatalog, THEN conjunct2, rule_format, of 0 1] l
  have "typeRank (type (rootQuery exampleCatalog ! 0)) < typeRank (type (rootQuery exampleCatalog ! 1))
      \<or> (typeRank (type (rootQuery exampleCatalog ! 0)) = typeRank (type (rootQuery exampleCatalog ! 1))
         \<and> rootpage (rootQuery exampleCatalog ! 0) \<le> rootpage (rootQuery exampleCatalog ! 1))"
    by blast
  then show ?thesis using l r by blast
qed

text \<open>
  Claim C6 as stated fails on \<open>exampleCatalog\<close>: the row of another type is relocated
  first, before the index and the table.
\<close>

theorem relocation_order_counterexample:
  "rootQuery exampleCatalog =
     [\<lparr>rootpage = 4, name = ''x'', type = ''other''\<rparr>,
      \<lparr>rootpage = 3, name = ''i'', type = ''index''\<rparr>,
      \<lparr>rootpage = 2, name = ''t'', type = ''table''\<rparr>]
   \<and> type (hd (rootQuery exampleCatalog)) = ''other''
   \<and> type (last (rootQuery exampleCatalog)) = ''table''"
  by (simp add: exampleCatalog_query)

section \<open>The rewriter returns\<close>

lemma overflowTail_less:
  assumes "overflowTail U a nByte = (a1, nByte1)" and "4 < U" and "0 < nByte"
  shows "unat nByte1 < unat nByte"
proof (cases "U - 4 \<le> nByte")
  case True
  have u4: "unat (U - 4) = unat U - 4"
    using assms(2) by (simp add: unat_sub word_le_nat_alt word_less_nat_alt)
  have "4 < unat U" using assms(2) by (simp add: word_less_nat_alt)
  moreover have "0 < unat nByte" using assms(3) by (simp add: word_less_nat_alt)
  moreover from assms(1) True have "unat nByte1 = unat nByte - unat (U - 4)"
    by (auto simp: overflowTail_def unat_sub)
  ultimately show ?thesis using u4 by simp
next
  case False
  with assms(1) have "nByte1 = 0" by (simp add: overflowTail_def)
  then show ?thesis using assms(3) by (simp add: word_less_nat_alt)
qed

lemma laterState_szUsable: "laterState p q \<Longrightarrow> szUsable q = szUsable p"
  by (simp add: laterState_def)

text \<open>
  With a usable size above 4 every pass of the copier's loop uses up bytes, so the loop
  returns, and with it the rewriter and the relocator loop.
\<close>

lemma overflowLoop_total:
  assumes "4 < szUsable p"
  shows "\<exists>q. overflowLoop p pgno nByte = Some q"
  using assms
proof (induction "unat nByte" arbitrary: p pgno nByte rule: less_induct)
  case less
  show ?case
  proof (cases "0 < nByte \<and> pgno \<noteq> 0")
    case False
    then show ?thesis by (subst overflowLoop.simps) auto
  next
    case True
    obtain p1 r where rd: "scrubDefragRead p pgno True = (p1, r)" by fastforce
    have u1: "szUsable p1 = szUsable p"
      using later_Read [of p pgno True] rd by (simp add: laterState_def)
    show ?thesis
    proof (cases r)
      case None
      with True rd show ?thesis by (subst overflowLoop.simps) simp
    next
      case (Some a)
      obtain a1 nByte1 where tl: "overflowTail (szUsable p1) a nByte = (a1, nByte1)" by fastforce
      obtain p2 pgno1 nByte1' where op: "overflowPage p1 a nByte = (p2, pgno1, nByte1')"
        by (metis prod_cases3)
      have n: "nByte1' = nByte1" using op tl by (auto simp: overflowPage_def split: prod.splits)
      have lt: "unat nByte1' < unat nByte"
        unfolding n using tl less.prems True unfolding u1 by (intro overflowTail_less) auto
      have u2: "4 < szUsable p2"
        using later_overflowPage [of p1 a nByte] op u1 less.prems by (simp add: laterState_def)
      from less.hyps [OF lt u2] obtain q where "overflowLoop p2 pgno1 nByte1' = Some q" by blast
      with True rd Some op show ?thesis by (subst overflowLoop.simps) simp
    qed
  qed
qed

lemma Overflow_total:
  assumes "4 < szUsable p"
  shows "\<exists>q. scrubDefragOverflow p pgno nByte = Some q"
proof -
  obtain p1 b where al: "scrubDefragAllocPage p = (p1, b)" by fastforce
  have "4 < szUsable p1" using later_AllocPage [of p] al assms by (simp add: laterState_def)
  from overflowLoop_total [OF this] al show ?thesis
    by (cases b) (auto simp: scrubDefragOverflow_def)
qed

lemma cellFinish_total:
  assumes "4 < szUsable p"
  shows "\<exists>q b ln. cellFinish p a pgno pc = Some (q, b, ln)"
proof (cases "cellPayload (szUsable p) (byteAt (curBuf pgno p a) (btreePrefix pgno))
                (curBuf pgno p a) pc")
  case (CellCorrupt n)
  then show ?thesis by (simp add: cellFinish_def)
next
  case CellLocal
  then show ?thesis by (simp add: cellFinish_def)
next
  case (CellOverflow off iChild nByte)
  obtain p2 a2 where st: "btreeStorePtr p a pgno off = (p2, a2)" by fastforce
  have "4 < szUsable p2"
    using later_StorePtr [of p a pgno off] st assms by (simp add: laterState_def)
  from Overflow_total [OF this] obtain q where "scrubDefragOverflow p2 iChild nByte = Some q"
    by blast
  with CellOverflow st show ?thesis by (simp add: cellFinish_def)
qed

lemma Btree_Cells_total:
  "4 < szUsable p \<longrightarrow> (\<exists>q. scrubDefragBtree p pgno iDepth bRoot = Some q)"
  "4 < szUsable p' \<longrightarrow> (\<exists>q b ln. btreeCells p' a pgno' iDepth' szHdr nCell i = Some (q, b, ln))"
proof (induction p pgno iDepth bRoot and p' a pgno' iDepth' szHdr nCell i
       rule: scrubDefragBtree_btreeCells.induct)
  case (1 p pgno iDepth bRoot)
  show ?case
  proof
    assume U: "4 < szUsable p"
    show "\<exists>q. scrubDefragBtree p pgno iDepth bRoot = Some q"
    proof (cases "rcErr p \<noteq> 0 \<or> 50 < iDepth")
      case True
      then show ?thesis by (subst scrubDefragBtree.simps) auto
    next
      case False
      obtain p1 r where ld: "btreeLoad p pgno = (p1, r)" by fastforce
      have l1: "laterState p p1" using later_Load [of p pgno] ld by simp
      show ?thesis
      proof (cases r)
        case None
        with False ld show ?thesis by (subst scrubDefragBtree.simps) simp
      next
        case (Some a)
        obtain b h where hd: "btreeHeader (szUsable p1) (btreePrefix pgno) (curBuf pgno p1 a) = (b, h)"
          by fastforce
        have l2: "laterState p (fst (setBuf pgno p1 a b))"
          by (rule laterState_trans [OF l1 later_setBuf])
        show ?thesis
        proof (cases h)
          case (Some n)
          with False ld \<open>r = Some a\<close> hd show ?thesis by (subst scrubDefragBtree.simps) simp
        next
          case None
          let ?cells = "btreeCells (fst (setBuf pgno p1 a b)) (snd (setBuf pgno p1 a b)) pgno iDepth
                     (btreeHdrSize (curBuf pgno p1 a) (btreePrefix pgno))
                     (unat (btreeCellCount (curBuf pgno p1 a) (btreePrefix pgno))) 0"
          have "4 < szUsable (fst (setBuf pgno p1 a b))"
            using laterState_szUsable [OF l2] U by simp
          with "1.IH"(1) [OF _ _ ld [symmetric] \<open>r = Some a\<close> hd [symmetric] None] False
          obtain p3 a3 c where cs: "?cells = Some (p3, a3, c)"
            by auto
          have l3: "laterState p p3"
            using later_Cells [OF cs] l2 by (blast intro: laterState_trans)
          show ?thesis
          proof (cases c)
            case (Some n)
            with False ld \<open>r = Some a\<close> hd None cs show ?thesis
              by (subst scrubDefragBtree.simps) simp
          next
            case cNone: None
            show ?thesis
            proof (cases "isInterior (curBuf pgno p3 a3) (btreePrefix pgno)")
              case False
              with \<open>\<not> (rcErr p \<noteq> 0 \<or> 50 < iDepth)\<close> ld \<open>r = Some a\<close> hd None cs cNone
              show ?thesis by (subst scrubDefragBtree.simps) simp
            next
              case True
              let ?st = "btreeStorePtr p3 a3 pgno (btreePrefix pgno + 8)"
              have "laterState p (fst ?st)"
                by (rule laterState_trans [OF l3 later_StorePtr])
              then have "4 < szUsable (fst ?st)" using U by (simp add: laterState_def)
              with "1.IH"(2) [OF _ _ ld [symmetric] \<open>r = Some a\<close> hd [symmetric] None cs _ _ cNone True]
                \<open>\<not> (rcErr p \<noteq> 0 \<or> 50 < iDepth)\<close>
              obtain p5 where
                "scrubDefragBtree (fst ?st)
                   (scrubDefragInt32 (curBuf pgno p3 a3) (btreePrefix pgno + 8)) (iDepth + 1) False
                 = Some p5"
                by auto
              with \<open>\<not> (rcErr p \<noteq> 0 \<or> 50 < iDepth)\<close> ld \<open>r = Some a\<close> hd None cs cNone True
              show ?thesis by (subst scrubDefragBtree.simps) simp
            qed
          qed
        qed
      qed
    qed
  qed
next
  case (2 p a pgno iDepth szHdr nCell i)
  show ?case
  proof
    assume U: "4 < szUsable p"
    show "\<exists>q b ln. btreeCells p a pgno iDepth szHdr nCell i = Some (q, b, ln)"
    proof (cases "i < nCell")
      case False
      then show ?thesis by (subst btreeCells.simps) simp
    next
      case True
      show ?thesis
      proof (cases "cellEnter (szUsable p) (btreePrefix pgno) szHdr (curBuf pgno p a) i")
        case (EntryCorrupt n)
        with True show ?thesis by (subst btreeCells.simps) simp
      next
        case (EntryLeaf pc)
        from cellFinish_total [OF U] obtain p4 a4 c where
          cf: "cellFinish p a pgno pc = Some (p4, a4, c)" by blast
        have U4: "4 < szUsable p4"
          using later_cellFinish [OF cf] U by (simp add: laterState_def)
        show ?thesis
        proof (cases c)
          case (Some n)
          with True EntryLeaf cf show ?thesis by (subst btreeCells.simps) simp
        next
          case None
          from "2.IH"(1) [OF True EntryLeaf cf refl refl None] U4
          obtain q' b' l' where "btreeCells p4 a4 pgno iDepth szHdr nCell (i + 1) = Some (q', b', l')" by auto
          with True EntryLeaf cf None show ?thesis by (subst btreeCells.simps) simp
        qed
      next
        case (EntryInterior iChild pc)
        let ?st = "btreeStorePtr p a pgno (unat pc)"
        have U1: "4 < szUsable (fst ?st)"
          using later_StorePtr [of p a pgno "unat pc"] U by (simp add: laterState_def)
        with "2.IH"(2) [OF True EntryInterior] obtain p3 where
          ch: "scrubDefragBtree (fst ?st) iChild (iDepth + 1) False = Some p3" by auto
        have U3: "4 < szUsable p3"
          using later_Btree [OF ch] U1 by (simp add: laterState_def)
        show ?thesis
        proof (cases "byteAt (curBuf pgno p3 (snd ?st)) (btreePrefix pgno) = 5")
          case k5: True
          from "2.IH"(3) [OF True EntryInterior ch k5] U3
          obtain q' b' l' where "btreeCells p3 (snd ?st) pgno iDepth szHdr nCell (i + 1) = Some (q', b', l')" by auto
          with True EntryInterior ch k5 show ?thesis by (subst btreeCells.simps) simp
        next
          case k5: False
          from cellFinish_total [OF U3] obtain p4 a4 c where
            cf: "cellFinish p3 (snd ?st) pgno (pc + 4) = Some (p4, a4, c)" by blast
          have U4: "4 < szUsable p4"
            using later_cellFinish [OF cf] U3 by (simp add: laterState_def)
          show ?thesis
          proof (cases c)
            case (Some n)
            with True EntryInterior ch k5 cf show ?thesis by (subst btreeCells.simps) simp
          next
            case None
            from "2.IH"(4) [OF True EntryInterior ch k5 cf refl refl None] U4
            obtain q' b' l' where "btreeCells p4 a4 pgno iDepth szHdr nCell (i + 1) = Some (q', b', l')" by auto
            with True EntryInterior ch k5 cf None show ?thesis by (subst btreeCells.simps) simp
          qed
        qed
      qed
    qed
  qed
qed

lemma Btree_total:
  "4 < szUsable p \<Longrightarrow> \<exists>q. scrubDefragBtree p pgno iDepth bRoot = Some q"
  using Btree_Cells_total(1) by blast

lemma relocLoop_total:
  "4 < szUsable s \<Longrightarrow> \<exists>r. relocLoop s z rs = Some r"
proof (induction rs arbitrary: s z)
  case Nil
  then show ?case by simp
next
  case (Cons r rs)
  from Btree_total [OF Cons.prems] obtain s1 where
    b: "scrubDefragBtree s (word_of_int (rootpage r)) 0 True = Some s1" by blast
  have "4 < szUsable s1" using later_Btree [OF b] Cons.prems by (simp add: laterState_def)
  from Cons.IH [OF this] b show ?case by simp
qed

section \<open>The numbers of the root pages\<close>

lemma allocRun_trans:
  assumes "allocRun r1 p q k1 n1" and "allocRun r2 q s k2 n2" and "r \<le> r2" and "r \<le> r1 + k2"
  shows "allocRun r p s (k1 + k2) (n1 + n2)"
proof -
  from assms(1) obtain ws1 where
    lq: "iLock q = iLock p" and iq: "iDestPageNo q = allocSeq p k1"
    and d1: "destFile q = destFile p @ ws1" and n1: "length ws1 = n1"
    and w1: "\<forall>w \<in> set ws1. \<exists>j. j + r1 \<le> k1 \<and> fst w = allocSeq p j"
    unfolding allocRun_def by blast
  from assms(2) obtain ws2 where
    ls: "iLock s = iLock q" and iss: "iDestPageNo s = allocSeq q k2"
    and d2: "destFile s = destFile q @ ws2" and n2: "length ws2 = n2"
    and w2: "\<forall>w \<in> set ws2. \<exists>j. j + r2 \<le> k2 \<and> fst w = allocSeq q j"
    unfolding allocRun_def by blast
  have sh: "allocSeq q j = allocSeq p (k1 + j)" for j
    by (rule allocSeq_shift [OF iq lq])
  have "\<exists>j. j + r \<le> k1 + k2 \<and> fst w = allocSeq p j" if "w \<in> set (ws1 @ ws2)" for w
  proof (cases "w \<in> set ws1")
    case True
    then obtain j where "j + r1 \<le> k1" "fst w = allocSeq p j" using w1 by blast
    then show ?thesis using assms(4) by (intro exI [of _ j]) simp
  next
    case False
    then have "w \<in> set ws2" using that by simp
    then obtain j where "j + r2 \<le> k2" "fst w = allocSeq q j" using w2 by blast
    then show ?thesis using assms(3) by (intro exI [of _ "k1 + j"]) (simp add: sh)
  qed
  moreover have "destFile s = destFile p @ (ws1 @ ws2)" using d1 d2 by simp
  moreover have "length (ws1 @ ws2) = n1 + n2" using n1 n2 by simp
  moreover have "iDestPageNo s = allocSeq p (k1 + k2)" using iss sh by simp
  moreover have "iLock s = iLock p" using ls lq by simp
  ultimately show ?thesis unfolding allocRun_def by blast
qed

lemma goodRun_same:
  assumes "iLock q = iLock p" and "iDestPageNo q = iDestPageNo p"
    and "destFile q = destFile p" and "szUsable q = szUsable p"
  shows "goodRun r 0 p q"
proof -
  have "allocRun r p q 0 0" using assms by (simp add: allocRun_def allocSeq_0)
  moreover have "(0 :: nat) \<le> 0 + unat (szUsable p) * 0" by simp
  ultimately show ?thesis unfolding goodRun_def using assms(4) by blast
qed

lemma goodRun_refl: "goodRun r 0 p p"
  by (rule goodRun_same) simp_all

lemma goodRun_trans:
  assumes "goodRun r c1 p q" and "goodRun r c2 q s"
  shows "goodRun r (c1 + c2) p s"
proof -
  from assms(1) obtain k1 n1 where
    u1: "szUsable q = szUsable p" and a1: "allocRun r p q k1 n1"
    and b1: "k1 \<le> c1 + unat (szUsable p) * n1"
    unfolding goodRun_def by blast
  from assms(2) obtain k2 n2 where
    u2: "szUsable s = szUsable q" and a2: "allocRun r q s k2 n2"
    and b2: "k2 \<le> c2 + unat (szUsable q) * n2"
    unfolding goodRun_def by blast
  have a: "allocRun r p s (k1 + k2) (n1 + n2)"
    using a1 a2 by (rule allocRun_trans) simp_all
  have "unat (szUsable p) * (n1 + n2) = unat (szUsable p) * n1 + unat (szUsable p) * n2"
    by (simp add: add_mult_distrib2)
  then have b: "k1 + k2 \<le> (c1 + c2) + unat (szUsable p) * (n1 + n2)"
    using b1 b2 u1 by simp
  show ?thesis unfolding goodRun_def using a b u1 u2 by auto
qed

lemma goodRun_weaken: "goodRun r c p q \<Longrightarrow> c \<le> c' \<Longrightarrow> goodRun r c' p q"
  unfolding goodRun_def by (meson add_le_mono1 le_trans)

lemma goodRun_StorePtr: "goodRun 0 1 p (fst (btreeStorePtr p a pgno off))"
proof -
  let ?q = "fst (btreeStorePtr p a pgno off)"
  have f: "iLock ?q = iLock p" "iDestPageNo ?q = allocSeq p 1" "destFile ?q = destFile p"
    "szUsable ?q = szUsable p"
    by (simp_all add: btreeStorePtr_def setBuf_def allocSeq_def scrubDefragIncDestPageNo_def Let_def)
  have "allocRun 0 p ?q 1 0" using f by (simp add: allocRun_def)
  moreover have "(1 :: nat) \<le> 1 + unat (szUsable p) * 0" by simp
  ultimately show ?thesis unfolding goodRun_def using f(4) by blast
qed

lemma AllocPage_alloc:
  "iLock (fst (scrubDefragAllocPage p)) = iLock p"
  "iDestPageNo (fst (scrubDefragAllocPage p)) = iDestPageNo p"
  "destFile (fst (scrubDefragAllocPage p)) = destFile p"
  "szUsable (fst (scrubDefragAllocPage p)) = szUsable p"
  by (simp_all add: scrubDefragAllocPage_def)

lemma Read_alloc:
  "iLock (fst (scrubDefragRead p pgno hasBuf)) = iLock p"
  "iDestPageNo (fst (scrubDefragRead p pgno hasBuf)) = iDestPageNo p"
  "destFile (fst (scrubDefragRead p pgno hasBuf)) = destFile p"
  "szUsable (fst (scrubDefragRead p pgno hasBuf)) = szUsable p"
  by (auto simp: scrubDefragRead_def scrubDefragAllocPage_def scrubDefragErr_def Let_def
      split: option.splits)

lemma goodRun_Load: "goodRun 0 0 p (fst (btreeLoad p pgno))"
  by (rule goodRun_same) (simp_all add: btreeLoad_def Read_alloc)

lemma goodRun_setBuf: "goodRun 0 0 p (fst (setBuf pgno p a b))"
  by (rule goodRun_same) (simp_all add: setBuf_def)

lemma later_ok: "laterState p q \<Longrightarrow> rcErr q = 0 \<Longrightarrow> rcErr p = 0"
  by (auto simp: laterState_def)

lemma overflowLink_dest:
  assumes "overflowLink p a = (pL, a2)"
  shows "destFile pL = destFile p" and "szUsable pL = szUsable p"
  using assms
  by (auto simp: overflowLink_def scrubDefragIncDestPageNo_def Let_def split: if_splits)

lemma allocRun_overflowLoop:
  assumes "overflowLoop p pgno nByte = Some q"
  shows "overflowLoop p pgno nByte = Some q \<and> rcErr q = 0 \<longrightarrow>
           (\<exists>k n. allocRun 0 p q k n \<and> k \<le> n)"
proof (rule overflowLoop.raw_induct
    [where P = "\<lambda>p pgno nByte q. overflowLoop p pgno nByte = Some q \<and> rcErr q = 0 \<longrightarrow>
           (\<exists>k n. allocRun 0 p q k n \<and> k \<le> n)", OF _ assms], goal_cases)
  case (1 f p pgno nByte q)
  show ?case
  proof (cases "0 < nByte \<and> pgno \<noteq> 0")
    case False
    then have "q = p" using 1(2) by auto
    then have "allocRun 0 p q 0 0" by (simp add: allocRun_def allocSeq_0)
    then show ?thesis by blast
  next
    case True
    obtain p1 r where rd: "scrubDefragRead p pgno True = (p1, r)" by fastforce
    show ?thesis
    proof (cases r)
      case None
      then have "q = p1" using 1(2) True rd by simp
      moreover have "rcErr p1 \<noteq> 0" using rd None by (auto dest: Read_fail)
      ultimately show ?thesis by simp
    next
      case (Some a)
      note rb = Read_buf_ok [OF rd [unfolded Some]]
      obtain a1 nByte1 where tl: "overflowTail (szUsable p) a nByte = (a1, nByte1)" by fastforce
      obtain pL a2 where lk: "overflowLink p a1 = (pL, a2)" by fastforce
      let ?p2 = "scrubDefragWrite pL (iDestPageNo p) a2"
      let ?pgno1 = "scrubDefragInt32 a1 0"
      have op: "overflowPage p a nByte = (?p2, ?pgno1, nByte1)"
        by (simp add: overflowPage_def tl lk)
      have rec: "f ?p2 ?pgno1 nByte1 = Some q"
        using 1(2) True rd Some rb(1) op by simp
      note IH = 1(1) [OF rec]
      show ?thesis
      proof (intro impI, elim conjE)
        assume real: "overflowLoop p pgno nByte = Some q" and ok: "rcErr q = 0"
        have real2: "overflowLoop ?p2 ?pgno1 nByte1 = Some q"
          using real True rd Some rb(1) op by (subst (asm) overflowLoop.simps) simp
        have l3: "laterState ?p2 q" using real2 by (rule later_overflowLoop)
        have ok2: "rcErr ?p2 = 0" using l3 ok by (rule later_ok)
        note la = overflowLink_alloc [OF lk]
        from Write_ok [OF ok2] overflowLink_dest(1) [OF lk]
        have w: "destFile ?p2 = destFile p @ [(iDestPageNo p, a2)]" by simp
        define e :: nat where "e = (if scrubDefragInt32 a1 0 = 0 then 0 else 1)"
        have e1: "e \<le> 1" by (simp add: e_def)
        have A1: "allocRun 0 p ?p2 e 1"
          unfolding allocRun_def using w la e_def
          by (intro conjI exI [of _ "[(iDestPageNo p, a2)]"]) (auto simp: allocSeq_0)
        obtain k n where A2: "allocRun 0 ?p2 q k n" and kn: "k \<le> n"
          using IH real2 ok by blast
        have "allocRun 0 p q (e + k) (1 + n)"
          by (rule allocRun_trans [OF A1 A2]) simp_all
        moreover have "e + k \<le> 1 + n" using e1 kn by simp
        ultimately show "\<exists>k n. allocRun 0 p q k n \<and> k \<le> n" by blast
      qed
    qed
  qed
qed

lemma goodRun_Overflow:
  assumes "scrubDefragOverflow p pgno nByte = Some q" and "rcErr q = 0"
    and "1 \<le> unat (szUsable p)"
  shows "goodRun 0 0 p q"
proof -
  obtain p1 b where al: "scrubDefragAllocPage p = (p1, b)" by fastforce
  have g1: "goodRun 0 0 p p1"
    using AllocPage_alloc [of p] al by (intro goodRun_same) simp_all
  have b: "b"
  proof (rule ccontr)
    assume "\<not> b"
    then have "q = p1" "rcErr p1 \<noteq> 0"
      using assms(1) al AllocPage_fail [of p p1] by (simp_all add: scrubDefragOverflow_def)
    then show False using assms(2) by simp
  qed
  then have lp: "overflowLoop p1 pgno nByte = Some q"
    using assms(1) al by (simp add: scrubDefragOverflow_def)
  obtain k n where a: "allocRun 0 p1 q k n" and kn: "k \<le> n"
    using allocRun_overflowLoop [OF lp] lp assms(2) by blast
  have u: "szUsable p1 = szUsable p" using AllocPage_alloc(4) [of p] al by simp
  have uq: "szUsable q = szUsable p1"
    using later_overflowLoop [OF lp] by (simp add: laterState_def)
  have "1 * n \<le> unat (szUsable p1) * n"
    using assms(3) u by (intro mult_le_mono1) simp
  then have "k \<le> 0 + unat (szUsable p1) * n" using kn by linarith
  then have "goodRun 0 0 p1 q"
    unfolding goodRun_def using a uq by blast
  with g1 show ?thesis using goodRun_trans by fastforce
qed

lemma goodRun_cellFinish:
  assumes "cellFinish p a pgno pc = Some (q, b, ln)" and "rcErr q = 0"
    and "1 \<le> unat (szUsable p)"
  shows "goodRun 0 1 p q"
proof (cases "cellPayload (szUsable p) (byteAt (curBuf pgno p a) (btreePrefix pgno))
                (curBuf pgno p a) pc")
  case (CellCorrupt n)
  with assms(1) have "q = p" by (simp add: cellFinish_def)
  then show ?thesis using goodRun_refl [of 0 p] by (auto intro: goodRun_weaken)
next
  case CellLocal
  with assms(1) have "q = p" by (simp add: cellFinish_def)
  then show ?thesis using goodRun_refl [of 0 p] by (auto intro: goodRun_weaken)
next
  case (CellOverflow off iChild nByte)
  let ?st = "btreeStorePtr p a pgno off"
  from CellOverflow assms(1) have ov: "scrubDefragOverflow (fst ?st) iChild nByte = Some q"
    by (auto simp: cellFinish_def split: prod.splits option.splits)
  have g1: "goodRun 0 1 p (fst ?st)" by (rule goodRun_StorePtr)
  then have "szUsable (fst ?st) = szUsable p" by (simp add: goodRun_def)
  then have "goodRun 0 0 (fst ?st) q"
    using ov assms(2,3) by (intro goodRun_Overflow) simp_all
  with g1 show ?thesis using goodRun_trans by fastforce
qed

lemma goodRun_Finish:
  assumes g: "goodRun 0 c p p5" and c: "c + 1 \<le> unat (szUsable p)"
    and ok: "rcErr (btreeFinish p5 a pgno bRoot (iDestPageNo p)) = 0"
  shows "goodRun (if bRoot then 1 else 0) 0 p (btreeFinish p5 a pgno bRoot (iDestPageNo p))"
proof -
  let ?b = "if bRoot then 1 else 0 :: nat"
  let ?p6 = "if bRoot then scrubDefragIncDestPageNo p5 else p5"
  let ?q = "btreeFinish p5 a pgno bRoot (iDestPageNo p)"
  from g obtain k n ws where
    u: "szUsable p5 = szUsable p" and l: "iLock p5 = iLock p"
    and i: "iDestPageNo p5 = allocSeq p k"
    and d: "destFile p5 = destFile p @ ws" and n: "length ws = n"
    and w: "\<forall>w \<in> set ws. \<exists>j. j + 0 \<le> k \<and> fst w = allocSeq p j"
    and b: "k \<le> c + unat (szUsable p) * n"
    unfolding goodRun_def allocRun_def by blast
  have q: "?q = scrubDefragWrite ?p6 (iDestPageNo p) (curBuf pgno ?p6 a)"
    by (simp add: btreeFinish_def Let_def)
  have f6: "destFile ?p6 = destFile p5" "iLock ?p6 = iLock p5" "szUsable ?p6 = szUsable p5"
    by (simp_all add: scrubDefragIncDestPageNo_def Let_def)
  have "iDestPageNo ?p6 = allocSeq p5 ?b" by (simp add: allocSeq_def)
  then have i6: "iDestPageNo ?p6 = allocSeq p (k + ?b)"
    using allocSeq_shift [OF i l, of ?b] by simp
  from ok have "rcErr (scrubDefragWrite ?p6 (iDestPageNo p) (curBuf pgno ?p6 a)) = 0"
    unfolding q .
  from Write_ok [OF this]
  have dq: "destFile ?q = destFile p @ (ws @ [(iDestPageNo p, curBuf pgno ?p6 a)])"
    unfolding q using f6(1) d by simp
  have iq: "iDestPageNo ?q = allocSeq p (k + ?b)" unfolding q using i6 by simp
  have lq: "iLock ?q = iLock p" unfolding q using f6(2) l by simp
  have uq: "szUsable ?q = szUsable p"
    using later_Finish [of p5 a pgno bRoot "iDestPageNo p"] u by (simp add: laterState_def)
  have wq: "\<exists>j. j + ?b \<le> k + ?b \<and> fst x = allocSeq p j"
    if "x \<in> set (ws @ [(iDestPageNo p, curBuf pgno ?p6 a)])" for x
  proof (cases "x \<in> set ws")
    case True
    then obtain j where "j \<le> k" "fst x = allocSeq p j" using w by auto
    then show ?thesis by (intro exI [of _ j]) simp
  next
    case False
    then have "fst x = allocSeq p 0" using that by (auto simp: allocSeq_0)
    then show ?thesis by (intro exI [of _ 0]) simp
  qed
  have a: "allocRun ?b p ?q (k + ?b) (n + 1)"
    unfolding allocRun_def using lq iq dq n wq
    by (intro conjI exI [of _ "ws @ [(iDestPageNo p, curBuf pgno ?p6 a)]"]) auto
  have "unat (szUsable p) * (n + 1) = unat (szUsable p) * n + unat (szUsable p)"
    by simp
  then have bd: "k + ?b \<le> 0 + unat (szUsable p) * (n + 1)" using b c by simp
  show ?thesis
    unfolding goodRun_def using uq a bd by blast
qed

lemma btreeHeader_cells:
  assumes "btreeHeader U nPrefix a = (b, None)" and "nPrefix \<le> 100"
  shows "2 * unat (btreeCellCount a nPrefix) + 8 \<le> unat U"
proof -
  from assms(1) obtain g where g: "btreeZeroGap U nPrefix a = Inr g"
    by (auto simp: btreeHeader_def split: sum.splits)
  note r = btreeZeroGap_result [OF g assms(2)]
  have "gapStart a nPrefix \<le> unat U" using r(2,3) by (simp add: word_le_nat_alt)
  moreover have "8 \<le> unat (btreeHdrSize a nPrefix)" by (simp add: unat_HdrSize)
  ultimately show ?thesis by (simp add: gapStart_def)
qed

lemma goodRun_usable: "goodRun r c p q \<Longrightarrow> szUsable q = szUsable p"
  by (simp add: goodRun_def)

lemma goodRun_Btree_Cells:
  "(scrubDefragBtree p pgno iDepth bRoot = Some q \<longrightarrow> rcErr q = 0 \<longrightarrow>
      goodRun (if bRoot then 1 else 0) 0 p q)"
  "(btreeCells p' a pgno' iDepth' szHdr nCell i = Some (q', a', ln) \<longrightarrow> rcErr q' = 0 \<longrightarrow>
      1 \<le> unat (szUsable p') \<longrightarrow> goodRun 0 (2 * (nCell - i)) p' q')"
proof (induction p pgno iDepth bRoot and p' a pgno' iDepth' szHdr nCell i
       arbitrary: q and q' a' ln rule: scrubDefragBtree_btreeCells.induct)
  case (1 p pgno iDepth bRoot)
  show ?case
  proof (intro impI)
    assume run: "scrubDefragBtree p pgno iDepth bRoot = Some q" and okq: "rcErr q = 0"
    have ok: "rcErr p = 0" using later_Btree [OF run] okq by (rule later_ok)
    have deep: "\<not> 50 < iDepth"
      using run ok okq by (subst (asm) scrubDefragBtree.simps) (auto split: if_splits)
    have nf: "\<not> (rcErr p \<noteq> 0 \<or> 50 < iDepth)" using ok deep by simp
    obtain p1 r where ld: "btreeLoad p pgno = (p1, r)" by fastforce
    have g1: "goodRun 0 0 p p1" using goodRun_Load [of p pgno] ld by simp
    show "goodRun (if bRoot then 1 else 0) 0 p q"
    proof (cases r)
      case None
      then have "q = p1" using run ok deep ld by (subst (asm) scrubDefragBtree.simps) simp
      moreover have "rcErr p1 \<noteq> 0"
        using ld None by (auto simp: btreeLoad_def split: if_splits dest: Read_fail)
      ultimately show ?thesis using okq by simp
    next
      case (Some a)
      obtain b h where hd: "btreeHeader (szUsable p1) (btreePrefix pgno) (curBuf pgno p1 a) = (b, h)"
        by fastforce
      let ?ps = "fst (setBuf pgno p1 a b)"
      let ?nCell = "unat (btreeCellCount (curBuf pgno p1 a) (btreePrefix pgno))"
      have g2: "goodRun 0 0 p ?ps"
        using goodRun_trans [OF g1 goodRun_setBuf [of p1 pgno a b]] by simp
      have us: "szUsable ?ps = szUsable p" using g2 by (rule goodRun_usable)
      have u1: "szUsable p1 = szUsable p" using g1 by (rule goodRun_usable)
      show ?thesis
      proof (cases h)
        case (Some n)
        with run ok deep ld \<open>r = Some a\<close> hd have "q = btreeCorrupt ?ps pgno n"
          by (subst (asm) scrubDefragBtree.simps) simp
        then show ?thesis using okq by (simp add: btreeCorrupt_def)
      next
        case None
        have hc: "2 * ?nCell + 8 \<le> unat (szUsable p)"
          using btreeHeader_cells [OF hd [unfolded None] btreePrefix_le] u1 by simp
        let ?cells = "btreeCells ?ps (snd (setBuf pgno p1 a b)) pgno iDepth
                   (btreeHdrSize (curBuf pgno p1 a) (btreePrefix pgno)) ?nCell 0"
        from run ok deep ld \<open>r = Some a\<close> hd None obtain p3 a3 c where
          cs: "?cells = Some (p3, a3, c)"
          by (subst (asm) scrubDefragBtree.simps) (auto split: option.splits)
        note IHc = "1.IH"(1) [OF _ _ ld [symmetric] \<open>r = Some a\<close> hd [symmetric] None]
        show ?thesis
        proof (cases c)
          case (Some n)
          with run ok deep ld \<open>r = Some a\<close> hd None cs have "q = btreeCorrupt p3 pgno n"
            by (subst (asm) scrubDefragBtree.simps) simp
          then show ?thesis using okq by (simp add: btreeCorrupt_def)
        next
          case cNone: None
          show ?thesis
          proof (cases "isInterior (curBuf pgno p3 a3) (btreePrefix pgno)")
            case False
            with run nf ld \<open>r = Some a\<close> hd None cs cNone
            have q: "q = btreeFinish p3 a3 pgno bRoot (iDestPageNo p)"
              by (subst (asm) scrubDefragBtree.simps) simp
            have ok3: "rcErr p3 = 0"
              using later_Finish [of p3 a3 pgno bRoot "iDestPageNo p"] okq unfolding q
              by (rule later_ok)
            have g3: "goodRun 0 (2 * (?nCell - 0)) ?ps p3"
              using IHc nf cs ok3 hc us by simp
            have g: "goodRun 0 (2 * ?nCell) p p3"
              by (rule goodRun_weaken [OF goodRun_trans [OF g2 g3]]) simp
            show ?thesis
              unfolding q
              by (rule goodRun_Finish [OF g]) (use hc okq q in simp_all)
          next
            case True
            let ?st = "btreeStorePtr p3 a3 pgno (btreePrefix pgno + 8)"
            from run nf ld \<open>r = Some a\<close> hd None cs cNone True
            obtain p5 where
              ch: "scrubDefragBtree (fst ?st)
                     (scrubDefragInt32 (curBuf pgno p3 a3) (btreePrefix pgno + 8)) (iDepth + 1) False
                   = Some p5"
              and q: "q = btreeFinish p5 (snd ?st) pgno bRoot (iDestPageNo p)"
              by (subst (asm) scrubDefragBtree.simps) (auto split: option.splits)
            have ok5: "rcErr p5 = 0"
              using later_Finish [of p5 "snd ?st" pgno bRoot "iDestPageNo p"] okq unfolding q
              by (rule later_ok)
            have ok4: "rcErr (fst ?st) = 0" using later_Btree [OF ch] ok5 by (rule later_ok)
            have ok3: "rcErr p3 = 0" using ok4 by simp
            have g3: "goodRun 0 (2 * (?nCell - 0)) ?ps p3"
              using IHc nf cs ok3 hc us by simp
            have g4: "goodRun 0 1 p3 (fst ?st)" by (rule goodRun_StorePtr)
            have g5: "goodRun 0 0 (fst ?st) p5"
              using "1.IH"(2) [OF _ _ ld [symmetric] \<open>r = Some a\<close> hd [symmetric] None cs _ _ cNone True]
                nf ch ok5
              by simp
            have g: "goodRun 0 (2 * ?nCell + 1) p p5"
              by (rule goodRun_weaken
                  [OF goodRun_trans [OF goodRun_trans [OF goodRun_trans [OF g2 g3] g4] g5]]) simp
            show ?thesis
              unfolding q
              by (rule goodRun_Finish [OF g]) (use hc okq q in simp_all)
          qed
        qed
      qed
    qed
  qed
next
  case (2 p a pgno iDepth szHdr nCell i)
  show ?case
  proof (intro impI)
    assume run: "btreeCells p a pgno iDepth szHdr nCell i = Some (q', a', ln)"
      and okq: "rcErr q' = 0" and U1: "1 \<le> unat (szUsable p)"
    show "goodRun 0 (2 * (nCell - i)) p q'"
    proof (cases "i < nCell")
      case False
      with run have "q' = p" by (subst (asm) btreeCells.simps) simp
      then show ?thesis using goodRun_refl [of 0 p] by (auto intro: goodRun_weaken)
    next
      case True
      show ?thesis
      proof (cases "cellEnter (szUsable p) (btreePrefix pgno) szHdr (curBuf pgno p a) i")
        case (EntryCorrupt n)
        with run True have "q' = p" by (subst (asm) btreeCells.simps) simp
        then show ?thesis using goodRun_refl [of 0 p] by (auto intro: goodRun_weaken)
      next
        case (EntryLeaf pc)
        from run True EntryLeaf obtain p4 a4 c where
          cf: "cellFinish p a pgno pc = Some (p4, a4, c)"
          by (subst (asm) btreeCells.simps) (auto split: option.splits)
        show ?thesis
        proof (cases c)
          case (Some n)
          with run True EntryLeaf cf have "q' = p4" by (subst (asm) btreeCells.simps) simp
          then have "goodRun 0 1 p q'" using goodRun_cellFinish [OF cf _ U1] okq by simp
          then show ?thesis by (rule goodRun_weaken) (use True in simp)
        next
          case None
          with run True EntryLeaf cf
          have rest: "btreeCells p4 a4 pgno iDepth szHdr nCell (i + 1) = Some (q', a', ln)"
            by (subst (asm) btreeCells.simps) simp
          have ok4: "rcErr p4 = 0" using later_Cells [OF rest] okq by (rule later_ok)
          have g1: "goodRun 0 1 p p4" using cf ok4 U1 by (rule goodRun_cellFinish)
          have u4: "szUsable p4 = szUsable p" using g1 by (rule goodRun_usable)
          have g2: "goodRun 0 (2 * (nCell - (i + 1))) p4 q'"
            using "2.IH"(1) [OF True EntryLeaf cf _ _ None] rest okq U1 u4 by simp
          show ?thesis
            by (rule goodRun_weaken [OF goodRun_trans [OF g1 g2]]) (use True in simp)
        qed
      next
        case (EntryInterior iChild pc)
        let ?st = "btreeStorePtr p a pgno (unat pc)"
        from run True EntryInterior obtain p3 where
          ch: "scrubDefragBtree (fst ?st) iChild (iDepth + 1) False = Some p3"
          by (subst (asm) btreeCells.simps) (auto split: option.splits)
        have g1: "goodRun 0 1 p (fst ?st)" by (rule goodRun_StorePtr)
        have IHb: "rcErr p3 = 0 \<Longrightarrow> goodRun 0 0 (fst ?st) p3"
          using "2.IH"(2) [OF True EntryInterior] ch by simp
        show ?thesis
        proof (cases "byteAt (curBuf pgno p3 (snd ?st)) (btreePrefix pgno) = 5")
          case k5: True
          with run True EntryInterior ch
          have rest: "btreeCells p3 (snd ?st) pgno iDepth szHdr nCell (i + 1) = Some (q', a', ln)"
            by (subst (asm) btreeCells.simps) simp
          have ok3: "rcErr p3 = 0" using later_Cells [OF rest] okq by (rule later_ok)
          have g2: "goodRun 0 0 (fst ?st) p3" using ok3 by (rule IHb)
          have u3: "szUsable p3 = szUsable p"
            using goodRun_usable [OF g1] goodRun_usable [OF g2] by simp
          have g3: "goodRun 0 (2 * (nCell - (i + 1))) p3 q'"
            using "2.IH"(3) [OF True EntryInterior ch k5] rest okq U1 u3 by simp
          show ?thesis
            by (rule goodRun_weaken [OF goodRun_trans [OF goodRun_trans [OF g1 g2] g3]])
              (use True in simp)
        next
          case k5: False
          from run True EntryInterior ch k5 obtain p4 a4 c where
            cf: "cellFinish p3 (snd ?st) pgno (pc + 4) = Some (p4, a4, c)"
            by (subst (asm) btreeCells.simps) (auto split: option.splits)
          show ?thesis
          proof (cases c)
            case (Some n)
            with run True EntryInterior ch k5 cf have q: "q' = p4"
              by (subst (asm) btreeCells.simps) simp
            have ok3: "rcErr p3 = 0" using later_cellFinish [OF cf] okq unfolding q by (rule later_ok)
            have g2: "goodRun 0 0 (fst ?st) p3" using ok3 by (rule IHb)
            have u3: "szUsable p3 = szUsable p"
              using goodRun_usable [OF g1] goodRun_usable [OF g2] by simp
            have g3: "goodRun 0 1 p3 q'"
              using goodRun_cellFinish [OF cf] okq U1 u3 unfolding q by simp
            show ?thesis
              by (rule goodRun_weaken [OF goodRun_trans [OF goodRun_trans [OF g1 g2] g3]])
                (use True in simp)
          next
            case None
            with run True EntryInterior ch k5 cf
            have rest: "btreeCells p4 a4 pgno iDepth szHdr nCell (i + 1) = Some (q', a', ln)"
              by (subst (asm) btreeCells.simps) simp
            have ok4: "rcErr p4 = 0" using later_Cells [OF rest] okq by (rule later_ok)
            have ok3: "rcErr p3 = 0" using later_cellFinish [OF cf] ok4 by (rule later_ok)
            have g2: "goodRun 0 0 (fst ?st) p3" using ok3 by (rule IHb)
            have u3: "szUsable p3 = szUsable p"
              using goodRun_usable [OF g1] goodRun_usable [OF g2] by simp
            have g3: "goodRun 0 1 p3 p4"
              using goodRun_cellFinish [OF cf ok4] U1 u3 by simp
            have u4: "szUsable p4 = szUsable p" using goodRun_usable [OF g3] u3 by simp
            have g4: "goodRun 0 (2 * (nCell - (i + 1))) p4 q'"
              using "2.IH"(4) [OF True EntryInterior ch k5 cf _ _ None] rest okq U1 u4 by simp
            show ?thesis
              by (rule goodRun_weaken
                  [OF goodRun_trans [OF goodRun_trans [OF goodRun_trans [OF g1 g2] g3] g4]])
                (use True in simp)
          qed
        qed
      qed
    qed
  qed
qed

lemma goodRun_root:
  assumes "scrubDefragBtree p pgno iDepth True = Some q" and "rcErr q = 0"
  shows "goodRun 1 0 p q"
  using goodRun_Btree_Cells(1) [of p pgno iDepth True q] assms by simp

lemma goodRun_relocLoop:
  assumes "relocLoop s z rs = Some (s', z')" and "rcErr s' = 0"
  shows "goodRun 1 0 s s'"
  using assms
proof (induction rs arbitrary: s z)
  case Nil
  then show ?case by (simp add: goodRun_refl)
next
  case (Cons r rs)
  from Cons.prems(1) obtain s1 where
    b: "scrubDefragBtree s (word_of_int (rootpage r)) 0 True = Some s1"
    and l: "relocLoop s1 (z @ [(iDestPageNo s, r)]) rs = Some (s', z')"
    by (auto split: option.splits)
  have "laterState s1 s'" using relocLoop_later [OF l] by simp
  then have ok1: "rcErr s1 = 0" using Cons.prems(2) by (rule later_ok)
  have g1: "goodRun 1 0 s s1" using b ok1 by (rule goodRun_root)
  have g2: "goodRun 1 0 s1 s'" using l Cons.prems(2) by (rule Cons.IH)
  show ?case using goodRun_trans [OF g1 g2] by simp
qed

text \<open>
  What a \<open>goodRun\<close> with \<open>r = 1\<close> says about the pages written: each holds a number that
  the allocator sequence reaches before it reaches the final allocator value, so that,
  below the wrap of the 32-bit counter, the final allocator value is above the number
  of every page written.
\<close>

lemma goodRun_fresh:
  assumes "goodRun 1 0 p q"
  shows "(\<exists>k \<le> unat (szUsable p) * length (drop (length (destFile p)) (destFile q)).
            iDestPageNo q = allocSeq p k
            \<and> (\<forall>w \<in> set (drop (length (destFile p)) (destFile q)).
                  \<exists>j < k. fst w = allocSeq p j))"
    and "unat (iDestPageNo p)
           + 2 * (unat (szUsable p) * length (drop (length (destFile p)) (destFile q))) < 2 ^ 32
         \<Longrightarrow> \<forall>w \<in> set (drop (length (destFile p)) (destFile q)). fst w < iDestPageNo q"
proof -
  from assms obtain k n ws where
    i: "iDestPageNo q = allocSeq p k"
    and d: "destFile q = destFile p @ ws" and n: "length ws = n"
    and w: "\<forall>w \<in> set ws. \<exists>j. j + 1 \<le> k \<and> fst w = allocSeq p j"
    and b: "k \<le> 0 + unat (szUsable p) * n"
    unfolding goodRun_def allocRun_def by blast
  have dr: "drop (length (destFile p)) (destFile q) = ws" using d by simp
  have w': "\<forall>w \<in> set ws. \<exists>j < k. fst w = allocSeq p j"
  proof
    fix x assume "x \<in> set ws"
    then obtain j where "j + 1 \<le> k" "fst x = allocSeq p j" using w by blast
    then show "\<exists>j < k. fst x = allocSeq p j" by (intro exI [of _ j]) simp
  qed
  show "\<exists>k \<le> unat (szUsable p) * length (drop (length (destFile p)) (destFile q)).
            iDestPageNo q = allocSeq p k
            \<and> (\<forall>w \<in> set (drop (length (destFile p)) (destFile q)).
                  \<exists>j < k. fst w = allocSeq p j)"
    unfolding dr using i w' b n by (intro exI [of _ k]) simp
  show "\<forall>w \<in> set (drop (length (destFile p)) (destFile q)). fst w < iDestPageNo q"
    if nw: "unat (iDestPageNo p)
           + 2 * (unat (szUsable p) * length (drop (length (destFile p)) (destFile q))) < 2 ^ 32"
    unfolding dr
  proof
    fix x assume "x \<in> set ws"
    then obtain j where j: "j < k" "fst x = allocSeq p j" using w' by blast
    have "unat (iDestPageNo p) + 2 * k < 2 ^ 32" using nw b n unfolding dr by simp
    from allocSeq_increasing [OF j(1) this] show "fst x < iDestPageNo q" using i j(2) by simp
  qed
qed

lemma page1_Write: "page1 (scrubDefragWrite p pgno d) = page1 p"
  by (simp add: scrubDefragWrite_def scrubDefragErr_def Let_def)

lemma Finish_buf:
  assumes "rcErr (btreeFinish p a pgno bRoot iCur) = 0"
  shows "destFile (btreeFinish p a pgno bRoot iCur)
         = destFile p @ [(iCur, curBuf pgno (btreeFinish p a pgno bRoot iCur) a)]"
proof -
  let ?q = "if bRoot then scrubDefragIncDestPageNo p else p"
  have d: "destFile ?q = destFile p" by (simp add: scrubDefragIncDestPageNo_def Let_def)
  have r: "rcErr (scrubDefragWrite ?q iCur (curBuf pgno ?q a)) = 0"
    using assms by (simp add: btreeFinish_def Let_def)
  have c: "curBuf pgno (scrubDefragWrite ?q iCur (curBuf pgno ?q a)) a = curBuf pgno ?q a"
    by (simp only: curBuf_def page1_Write)
  from Write_ok [OF r] d c show ?thesis by (simp add: btreeFinish_def Let_def)
qed

lemma Btree_root_buf:
  assumes run: "scrubDefragBtree p pgno iDepth bRoot = Some q"
    and ok: "rcErr p = 0" "rcErr q = 0"
  shows "\<exists>ws a5. destFile q = destFile p @ ws @ [(iDestPageNo p, curBuf pgno q a5)]"
proof -
  have fin: "\<exists>ws a5. destFile q = destFile p @ ws @ [(iDestPageNo p, curBuf pgno q a5)]"
    if "laterState p p'" "q = btreeFinish p' b pgno bRoot (iDestPageNo p)" for p' b
  proof -
    from that(1) obtain ws where "destFile p' = destFile p @ ws" by (auto simp: laterState_def)
    moreover from Finish_buf [of p' b pgno bRoot "iDestPageNo p"] ok(2) that(2)
    have "destFile q = destFile p' @ [(iDestPageNo p, curBuf pgno q b)]" by simp
    ultimately show ?thesis by auto
  qed
  have deep: "\<not> 50 < iDepth"
    using run ok by (subst (asm) scrubDefragBtree.simps) (auto split: if_splits)
  obtain p1 r where ld: "btreeLoad p pgno = (p1, r)" by fastforce
  have l1: "laterState p p1" using later_Load [of p pgno] ld by simp
  show ?thesis
  proof (cases r)
    case None
    then have "q = p1" using run ok deep ld by (subst (asm) scrubDefragBtree.simps) simp
    moreover have "rcErr p1 \<noteq> 0"
      using ld None by (auto simp: btreeLoad_def split: if_splits dest: Read_fail)
    ultimately show ?thesis using ok by simp
  next
    case (Some a)
    obtain b h where hd: "btreeHeader (szUsable p1) (btreePrefix pgno) (curBuf pgno p1 a) = (b, h)"
      by fastforce
    have l2: "laterState p (fst (setBuf pgno p1 a b))"
      by (rule laterState_trans [OF l1 later_setBuf])
    show ?thesis
    proof (cases h)
      case (Some n)
      with run ok deep ld \<open>r = Some a\<close> hd have "q = btreeCorrupt (fst (setBuf pgno p1 a b)) pgno n"
        by (subst (asm) scrubDefragBtree.simps) simp
      then show ?thesis using ok by (simp add: btreeCorrupt_def)
    next
      case None
      let ?cells = "btreeCells (fst (setBuf pgno p1 a b)) (snd (setBuf pgno p1 a b)) pgno iDepth
                 (btreeHdrSize (curBuf pgno p1 a) (btreePrefix pgno))
                 (unat (btreeCellCount (curBuf pgno p1 a) (btreePrefix pgno))) 0"
      from run ok deep ld \<open>r = Some a\<close> hd None obtain p3 a3 c where
        cs: "?cells = Some (p3, a3, c)"
        by (subst (asm) scrubDefragBtree.simps) (auto split: option.splits)
      have l3: "laterState p p3"
        using later_Cells [OF cs] l2 by (blast intro: laterState_trans)
      show ?thesis
      proof (cases c)
        case (Some n)
        with run ok deep ld \<open>r = Some a\<close> hd None cs have "q = btreeCorrupt p3 pgno n"
          by (subst (asm) scrubDefragBtree.simps) simp
        then show ?thesis using ok by (simp add: btreeCorrupt_def)
      next
        case cNone: None
        show ?thesis
        proof (cases "isInterior (curBuf pgno p3 a3) (btreePrefix pgno)")
          case False
          with run ok deep ld \<open>r = Some a\<close> hd None cs cNone
          have "q = btreeFinish p3 a3 pgno bRoot (iDestPageNo p)"
            by (subst (asm) scrubDefragBtree.simps) simp
          with l3 show ?thesis by (rule fin)
        next
          case True
          let ?st = "btreeStorePtr p3 a3 pgno (btreePrefix pgno + 8)"
          from run ok deep ld \<open>r = Some a\<close> hd None cs cNone True
          obtain p5 where
            ch: "scrubDefragBtree (fst ?st)
                   (scrubDefragInt32 (curBuf pgno p3 a3) (btreePrefix pgno + 8)) (iDepth + 1) False
                 = Some p5"
            and q: "q = btreeFinish p5 (snd ?st) pgno bRoot (iDestPageNo p)"
            by (subst (asm) scrubDefragBtree.simps) (auto split: option.splits)
          have "laterState (fst ?st) p5" using ch by (rule later_Btree)
          then have "laterState p p5" by (blast intro: laterState_trans l3 later_StorePtr)
          then show ?thesis using q by (rule fin)
        qed
      qed
    qed
  qed
qed

text \<open>
  Claim C1. Page 1 is written at the number the allocator holds before its call: the
  last write of the call stores the buffer of page 1 there. In the relocator loop, for a
  row \<open>r\<close> at any position whose rewrite ends without an error, the script entry of
  the row holds the allocator value from before the call, the last write of that call
  (line 479, of the buffer of the call) goes to that number, and the pages written stay
  in the destination to the end of the loop.

  The extra advance of line 475 is what keeps these numbers free for the roots. Let
  \<open>s\<close> be the state before page 1 is rewritten. The allocator value before the call for
  \<open>r\<close> (the new root of \<open>r\<close>) and the one after it (the new root of the next row) are
  values of the allocator sequence that starts in \<open>s\<close>, and every page written so far,
  the roots included, holds a strictly earlier value of that sequence. The number of
  advances is at most the usable size for each page written, so that, below the wrap of
  the 32-bit counter, both allocator values are above the number of every page written
  so far: no root is given a number at which a page has been written.
\<close>

theorem root_page_numbers:
  assumes "rcErr s = 0" and "scrubDefragBtree s 1 0 True = Some s0" and "rcErr s0 = 0"
    and "relocLoop s0 [] rs1 = Some (s1, z1)"
    and "scrubDefragBtree s1 (word_of_int (rootpage r)) 0 True = Some s2" and "rcErr s2 = 0"
    and "relocLoop s0 [] (rs1 @ r # rs2) = Some (s', z')"
  shows "(\<exists>ws. destFile s0 = destFile s @ ws @ [(iDestPageNo s, page1 s0)])
         \<and> z' ! length rs1 = (iDestPageNo s1, r)
         \<and> (\<exists>ws a. destFile s2 = destFile s1 @ ws
                     @ [(iDestPageNo s1, curBuf (word_of_int (rootpage r)) s2 a)])
         \<and> (\<exists>ws. destFile s' = destFile s2 @ ws)
         \<and> (\<exists>k \<le> unat (szUsable s) * length (drop (length (destFile s)) (destFile s1)).
               iDestPageNo s1 = allocSeq s k
               \<and> (\<forall>w \<in> set (drop (length (destFile s)) (destFile s1)).
                     \<exists>j < k. fst w = allocSeq s j))
         \<and> (unat (iDestPageNo s)
               + 2 * (unat (szUsable s) * length (drop (length (destFile s)) (destFile s1)))
               < 2 ^ 32 \<longrightarrow>
             (\<forall>w \<in> set (drop (length (destFile s)) (destFile s1)). fst w < iDestPageNo s1))
         \<and> (\<exists>k \<le> unat (szUsable s) * length (drop (length (destFile s)) (destFile s2)).
               iDestPageNo s2 = allocSeq s k
               \<and> (\<forall>w \<in> set (drop (length (destFile s)) (destFile s2)).
                     \<exists>j < k. fst w = allocSeq s j))
         \<and> (unat (iDestPageNo s)
               + 2 * (unat (szUsable s) * length (drop (length (destFile s)) (destFile s2)))
               < 2 ^ 32 \<longrightarrow>
             (\<forall>w \<in> set (drop (length (destFile s)) (destFile s2)). fst w < iDestPageNo s2))"
proof -
  have p1: "\<exists>ws. destFile s0 = destFile s @ ws @ [(iDestPageNo s, page1 s0)]"
    using Btree_root_buf [OF assms(2,1,3)] by (simp add: curBuf_def)
  have e1: "rcErr s1 = 0"
    using later_Btree [OF assms(5)] assms(6) by (auto simp: laterState_def)
  have w: "\<exists>ws a. destFile s2 = destFile s1 @ ws
                     @ [(iDestPageNo s1, curBuf (word_of_int (rootpage r)) s2 a)]"
    using assms(5) e1 assms(6) by (rule Btree_root_buf)
  have rest: "relocLoop s2 (z1 @ [(iDestPageNo s1, r)]) rs2 = Some (s', z')"
    using assms(7,4,5) by (simp add: relocLoop_append)
  have lz1: "length z1 = length rs1" using relocLoop_later [OF assms(4)] by simp
  from relocLoop_later [OF rest] have
    l: "laterState s2 s'" and t: "take (length (z1 @ [(iDestPageNo s1, r)])) z' = z1 @ [(iDestPageNo s1, r)]"
    and len: "length z' = length (z1 @ [(iDestPageNo s1, r)]) + length rs2"
    by simp_all
  have "z' ! length rs1 = (take (length (z1 @ [(iDestPageNo s1, r)])) z') ! length rs1"
    using lz1 len by simp
  also have "\<dots> = (iDestPageNo s1, r)" unfolding t lz1 [symmetric] by simp
  finally have z: "z' ! length rs1 = (iDestPageNo s1, r)" .
  from l have k: "\<exists>ws. destFile s' = destFile s2 @ ws" by (simp add: laterState_def)
  have g0: "goodRun 1 0 s s0" using assms(2,3) by (rule goodRun_root)
  have g1: "goodRun 1 0 s0 s1" using assms(4) e1 by (rule goodRun_relocLoop)
  have g2: "goodRun 1 0 s1 s2" using assms(5,6) by (rule goodRun_root)
  have G1: "goodRun 1 0 s s1" using goodRun_trans [OF g0 g1] by simp
  have G2: "goodRun 1 0 s s2" using goodRun_trans [OF G1 g2] by simp
  note f1 = goodRun_fresh [OF G1]
  note f2 = goodRun_fresh [OF G2]
  show ?thesis
    by (intro conjI impI) (fact p1 z w k f1(1) f2(1) | erule f1(2) | erule f2(2))+
qed

theorem root_page_numbers_witness:
  "rcErr runState = 0 \<and> scrubDefragBtree runState 1 0 True = Some runState1
   \<and> rcErr runState1 = 0 \<and> relocLoop runState1 [] [] = Some (runState1, [])
   \<and> scrubDefragBtree runState1 (word_of_int (rootpage rootRow)) 0 True = Some runState2
   \<and> rcErr runState2 = 0
   \<and> relocLoop runState1 [] ([] @ rootRow # []) = Some (runState2, [(2, rootRow)])
   \<and> [(2, rootRow)] ! length ([] :: catalogRow list) = (iDestPageNo runState1, rootRow)
   \<and> (\<exists>ws. destFile runState1 = destFile runState @ ws
               @ [(iDestPageNo runState, page1 runState1)])
   \<and> (\<exists>ws a. destFile runState2 = destFile runState1 @ ws
               @ [(iDestPageNo runState1, curBuf (word_of_int (rootpage rootRow)) runState2 a)])
   \<and> unat (iDestPageNo runState)
        + 2 * (unat (szUsable runState)
                 * length (drop (length (destFile runState)) (destFile runState1))) < 2 ^ 32
   \<and> list_all (\<lambda>w. fst w < iDestPageNo runState1) (destFile runState1)
   \<and> unat (iDestPageNo runState)
        + 2 * (unat (szUsable runState)
                 * length (drop (length (destFile runState)) (destFile runState2))) < 2 ^ 32
   \<and> list_all (\<lambda>w. fst w < iDestPageNo runState2) (destFile runState2)"
proof -
  have e: "rcErr runState = 0" "rcErr runState1 = 0" "rcErr runState2 = 0"
    by (simp_all add: runState_def runState1_def runState2_def)
  have l0: "relocLoop runState1 [] [] = Some (runState1, [])" by simp
  note c = root_page_numbers [OF e(1) runState_page1 e(2) l0 runState_page2 e(3) runState_loop]
  from c have z: "[(2, rootRow)] ! length ([] :: catalogRow list) = (iDestPageNo runState1, rootRow)"
    by (rule conjunct2 [THEN conjunct1])
  from c have w0: "\<exists>ws. destFile runState1 = destFile runState @ ws
               @ [(iDestPageNo runState, page1 runState1)]"
    by (rule conjunct1)
  from c have w: "\<exists>ws a. destFile runState2 = destFile runState1 @ ws
               @ [(iDestPageNo runState1, curBuf (word_of_int (rootpage rootRow)) runState2 a)]"
    by (rule conjunct2 [THEN conjunct2, THEN conjunct1])
  have d0: "destFile runState = []" by (simp add: runState_def)
  have n1: "unat (iDestPageNo runState)
        + 2 * (unat (szUsable runState)
                 * length (drop (length (destFile runState)) (destFile runState1))) < 2 ^ 32"
    by (simp add: runState_def runState1_def)
  have n2: "unat (iDestPageNo runState)
        + 2 * (unat (szUsable runState)
                 * length (drop (length (destFile runState)) (destFile runState2))) < 2 ^ 32"
    by (simp add: runState_def runState2_def)
  from c have "unat (iDestPageNo runState)
        + 2 * (unat (szUsable runState)
                 * length (drop (length (destFile runState)) (destFile runState1))) < 2 ^ 32
      \<longrightarrow> (\<forall>w \<in> set (drop (length (destFile runState)) (destFile runState1)).
             fst w < iDestPageNo runState1)"
    by (rule conjunct2 [THEN conjunct2, THEN conjunct2, THEN conjunct2, THEN conjunct2,
          THEN conjunct1])
  then have f1: "list_all (\<lambda>w. fst w < iDestPageNo runState1) (destFile runState1)"
    using n1 unfolding d0 by (simp add: list_all_iff)
  from c have "unat (iDestPageNo runState)
        + 2 * (unat (szUsable runState)
                 * length (drop (length (destFile runState)) (destFile runState2))) < 2 ^ 32
      \<longrightarrow> (\<forall>w \<in> set (drop (length (destFile runState)) (destFile runState2)).
             fst w < iDestPageNo runState2)"
    by (rule conjunct2 [THEN conjunct2, THEN conjunct2, THEN conjunct2, THEN conjunct2,
          THEN conjunct2, THEN conjunct2])
  then have f2: "list_all (\<lambda>w. fst w < iDestPageNo runState2) (destFile runState2)"
    using n2 unfolding d0 by (simp add: list_all_iff)
  show ?thesis
    by (intro conjI) (fact e l0 runState_page1 runState_page2 runState_loop z w0 w n1 f1 n2 f2)+
qed

end
